theory Spec2Isabelle
  imports Main
begin

section \<open>Errors, nodes and the node store\<close>

text \<open>
  The package-level error values of \<^verbatim>\<open>html_query.go\<close>. \<^verbatim>\<open>ErrNotFound\<close> and
  \<^verbatim>\<open>ErrBreak\<close> are two distinct errno values; \<open>ErrOther\<close> stands for any error coming
  from outside the package (a parse or I/O error carried by a node set). A Go value of
  type \<^verbatim>\<open>error\<close> is an \<open>error option\<close>, \<open>None\<close> being \<^verbatim>\<open>nil\<close>.
\<close>

datatype error =
    ErrNotFound
  | ErrBreak
  | ErrTooManyNodes
  | ErrInvalidNode
  | ErrNotTextNode
  | ErrOther string

text \<open>\<^verbatim>\<open>html.NodeType\<close>; the zero value is \<open>ErrorNode\<close>.\<close>

datatype NodeType =
  ErrorNode | TextNode | DocumentNode | ElementNode | CommentNode | DoctypeNode | RawNode

text \<open>\<^verbatim>\<open>atom.Atom\<close>: the atoms the package names, and any other one by its code.\<close>

datatype Atom =
    NoAtom | atom_A | atom_Div | atom_H1 | atom_H2 | atom_H3 | atom_H4 | atom_Img
  | atom_Li | atom_Nav | atom_Ol | atom_P | atom_Span | atom_Td | atom_Ul
  | OtherAtom nat

text \<open>
  A \<^verbatim>\<open>*html.Node\<close> that is not nil is an address; the five links of a node are
  pointers that may be nil.
\<close>

type_synonym addr = nat

record Node =
  Parent :: "addr option"
  FirstChild :: "addr option"
  LastChild :: "addr option"
  PrevSibling :: "addr option"
  NextSibling :: "addr option"
  Type :: NodeType
  DataAtom :: Atom
  Data :: string
  Attr :: "(string \<times> string) list"

definition zeroNode :: Node where
  "zeroNode = \<lparr>Parent = None, FirstChild = None, LastChild = None, PrevSibling = None,
     NextSibling = None, Type = ErrorNode, DataAtom = NoAtom, Data = [], Attr = []\<rparr>"

text \<open>
  The store holds every node by its address; \<open>fresh\<close> is the next address that
  \<^verbatim>\<open>&html.Node{...}\<close> hands out.
\<close>

record heap =
  cell :: "addr \<Rightarrow> Node"
  fresh :: addr

definition newNode :: "heap \<Rightarrow> Node \<Rightarrow> addr \<times> heap" where
  "newNode h nd = (fresh h, h\<lparr>cell := (cell h)(fresh h := nd), fresh := Suc (fresh h)\<rparr>)"

section \<open>Visitors\<close>

text \<open>
  A visitor \<^verbatim>\<open>func(node *html.Node) error\<close> (the parameter \<^verbatim>\<open>filter\<close> of the
  source, \<open>visit\<close> here) is a closure: it reads and writes the variables it captured
  (\<open>'u\<close>) and the node store. A call that does not return is
  \<open>None\<close>. Every recursive walk takes fuel, its first argument: it gives \<open>None\<close>
  when the fuel runs out, as it does when the walk of the source never ends (on a
  cyclic chain of links).
\<close>

type_synonym 'u state = "heap \<times> 'u"
type_synonym 'u visitor = "addr \<Rightarrow> 'u state \<Rightarrow> (error option \<times> 'u state) option"

text \<open>
  The loop
  \<^verbatim>\<open>for node := start; node != nil; node = node.<link> { if body(node) == ErrBreak { return ErrBreak } }; return nil\<close>
  of \<^verbatim>\<open>anyForEach\<close>, \<^verbatim>\<open>childLevelForEach\<close>, \<^verbatim>\<open>prevSiblingNodes.ForEach\<close> and
  \<^verbatim>\<open>nextSiblingNodes.ForEach\<close>. The link is read after the body has run.
\<close>

fun forLinks :: "nat \<Rightarrow> (Node \<Rightarrow> addr option) \<Rightarrow> 'u visitor \<Rightarrow> addr option \<Rightarrow> 'u state
    \<Rightarrow> (error option \<times> 'u state) option" where
  "forLinks 0 link body cur s = None"
| "forLinks (Suc n) link body None s = Some (None, s)"
| "forLinks (Suc n) link body (Some node) s =
     (case body node s of
        None \<Rightarrow> None
      | Some (err, s') \<Rightarrow>
          if err = Some ErrBreak then Some (Some ErrBreak, s')
          else forLinks n link body (link (cell (fst s') node)) s')"

text \<open>
  The walks of the source. A level or a delta is a Go \<^verbatim>\<open>int\<close> of 64 bits, here an
  integer between \<open>- 2 ^ 63\<close> and \<open>2 ^ 63 - 1\<close>. A counter that an operator of
  \<^verbatim>\<open>NodeSet\<close> hands to a walk moves one step towards 0 in every round and stops
  there, so it stays in that range. The unary minus of Go wraps at the least
  \<^verbatim>\<open>int\<close>, which is its own negation.
\<close>

definition negInt :: "int \<Rightarrow> int" where
  "negInt x = (if x = - (2 ^ 63) then x else - x)"


fun anyForEach :: "nat \<Rightarrow> addr \<Rightarrow> 'u visitor \<Rightarrow> 'u state \<Rightarrow> (error option \<times> 'u state) option" where
  "anyForEach 0 p visit s = None"
| "anyForEach (Suc n) p visit s =
     (case visit p s of
        None \<Rightarrow> None
      | Some (err, s') \<Rightarrow>
          if err = None \<or> err = Some ErrBreak then Some (err, s')
          else forLinks n NextSibling (\<lambda>node. anyForEach n node visit)
                 (FirstChild (cell (fst s') p)) s')"

fun childLevelForEach :: "nat \<Rightarrow> addr \<Rightarrow> int \<Rightarrow> 'u visitor \<Rightarrow> 'u state
    \<Rightarrow> (error option \<times> 'u state) option" where
  "childLevelForEach 0 p level visit s = None"
| "childLevelForEach (Suc n) p level visit s =
     (if level = 0 then visit p s
      else forLinks n NextSibling (\<lambda>node. childLevelForEach n node (level - 1) visit)
             (FirstChild (cell (fst s) p)) s)"

function parentLevelForEach :: "addr \<Rightarrow> int \<Rightarrow> 'u visitor \<Rightarrow> 'u state
    \<Rightarrow> (error option \<times> 'u state) option" where
  "parentLevelForEach p level visit s =
     (if level < 0 then
        (case Parent (cell (fst s) p) of
           None \<Rightarrow> Some (Some ErrNotFound, s)
         | Some q \<Rightarrow> parentLevelForEach q (level + 1) visit s)
      else visit p s)"
  by pat_completeness auto
termination
  by (relation "measure (\<lambda>(p, level, visit, s). nat (- level))") auto

declare parentLevelForEach.simps [simp del]

function siblingForEach :: "addr \<Rightarrow> int \<Rightarrow> 'u visitor \<Rightarrow> 'u state
    \<Rightarrow> (error option \<times> 'u state) option" where
  "siblingForEach p delta visit s =
     (if delta > 0 then
        (case NextSibling (cell (fst s) p) of
           None \<Rightarrow> Some (Some ErrNotFound, s)
         | Some q \<Rightarrow> siblingForEach q (delta - 1) visit s)
      else if delta < 0 then
        (case PrevSibling (cell (fst s) p) of
           None \<Rightarrow> Some (Some ErrNotFound, s)
         | Some q \<Rightarrow> siblingForEach q (delta + 1) visit s)
      else visit p s)"
  by pat_completeness auto
termination
  by (relation "measure (\<lambda>(p, delta, visit, s). nat \<bar>delta\<bar>)") auto

declare siblingForEach.simps [simp del]

text \<open>The package functions \<^verbatim>\<open>FirstChild\<close> and \<^verbatim>\<open>LastChild\<close> (of a node and a type).\<close>

fun firstOfType :: "nat \<Rightarrow> heap \<Rightarrow> addr option \<Rightarrow> NodeType \<Rightarrow> (error + addr) option" where
  "firstOfType 0 h p nodeType = None"
| "firstOfType (Suc n) h None nodeType = Some (Inl ErrNotFound)"
| "firstOfType (Suc n) h (Some p) nodeType =
     (if Type (cell h p) = nodeType then Some (Inr p)
      else firstOfType n h (NextSibling (cell h p)) nodeType)"

fun lastOfType :: "nat \<Rightarrow> heap \<Rightarrow> addr option \<Rightarrow> NodeType \<Rightarrow> (error + addr) option" where
  "lastOfType 0 h p nodeType = None"
| "lastOfType (Suc n) h None nodeType = Some (Inl ErrNotFound)"
| "lastOfType (Suc n) h (Some p) nodeType =
     (if Type (cell h p) = nodeType then Some (Inr p)
      else lastOfType n h (PrevSibling (cell h p)) nodeType)"

definition hq_FirstChild :: "nat \<Rightarrow> heap \<Rightarrow> addr \<Rightarrow> NodeType \<Rightarrow> (error + addr) option" where
  "hq_FirstChild n h node nodeType = firstOfType n h (FirstChild (cell h node)) nodeType"

definition hq_LastChild :: "nat \<Rightarrow> heap \<Rightarrow> addr \<Rightarrow> NodeType \<Rightarrow> (error + addr) option" where
  "hq_LastChild n h node nodeType = lastOfType n h (LastChild (cell h node)) nodeType"

section \<open>Text extraction\<close>

text \<open>\<^verbatim>\<open>strings.Trim(s, cutset)\<close> for a cutset of ASCII bytes.\<close>

definition Trim :: "string \<Rightarrow> string \<Rightarrow> string" where
  "Trim s cutset =
     rev (dropWhile (\<lambda>c. c \<in> set cutset) (rev (dropWhile (\<lambda>c. c \<in> set cutset) s)))"

definition blanks :: string where
  "blanks = [CHR '' '', CHR 0x09, CHR 0x0D, CHR 0x0A]"

record textPrinter =
  data :: string
  notLineStart :: bool

definition printText :: "textPrinter \<Rightarrow> string \<Rightarrow> textPrinter" where
  "printText p v =
     (if v = [] then p
      else let p1 = (if notLineStart p then p\<lparr>data := data p @ [CHR '' '']\<rparr>
                     else p\<lparr>notLineStart := True\<rparr>)
           in p1\<lparr>data := data p1 @ v\<rparr>)"

fun printNode :: "nat \<Rightarrow> heap \<Rightarrow> addr option \<Rightarrow> textPrinter \<Rightarrow> textPrinter option"
  and printChildren :: "nat \<Rightarrow> heap \<Rightarrow> addr option \<Rightarrow> textPrinter \<Rightarrow> textPrinter option" where
  "printNode 0 h node p = None"
| "printNode (Suc n) h None p = Some p"
| "printNode (Suc n) h (Some node) p =
     (if Type (cell h node) = TextNode
      then Some (printText p (Trim (Data (cell h node)) blanks))
      else (case printChildren n h (FirstChild (cell h node)) p of
              None \<Rightarrow> None
            | Some p' \<Rightarrow>
                Some (if DataAtom (cell h node) = atom_P
                      then p'\<lparr>data := data p' @ [CHR 0x0A], notLineStart := False\<rparr>
                      else p')))"
| "printChildren 0 h child p = None"
| "printChildren (Suc n) h None p = Some p"
| "printChildren (Suc n) h (Some child) p =
     (case printNode n h (Some child) p of
        None \<Rightarrow> None
      | Some p' \<Rightarrow> printChildren n h (NextSibling (cell h child)) p')"

definition Text :: "nat \<Rightarrow> heap \<Rightarrow> addr \<Rightarrow> string option" where
  "Text n h node =
     map_option data (printNode n h (Some node) \<lparr>data = [], notLineStart = False\<rparr>)"

text \<open>\<^verbatim>\<open>ExactText(node)\<close>: the returned pair of a string and an error.\<close>

definition ExactText :: "heap \<Rightarrow> addr \<Rightarrow> string \<times> error option" where
  "ExactText h node =
     (if Type (cell h node) \<noteq> TextNode then (Data (cell h node), None)
      else ([], Some ErrNotTextNode))"

section \<open>Node enumerators\<close>

text \<open>
  The implementations of the interface \<^verbatim>\<open>NodeEnum\<close>, one constructor per struct, each
  holding its upstream enumerator. \<open>nilEnum\<close> is the nil interface value (the
  \<^verbatim>\<open>Data\<close> of \<^verbatim>\<open>NodeSet{Err: err}\<close>). The nodes of a \<^verbatim>\<open>fixNodes\<close> and the node of a
  \<^verbatim>\<open>oneNode\<close> are addresses, that is not nil, and a predicate given to \<^verbatim>\<open>Match\<close>
  reads the node through the store and returns. A nil node in a list given to
  \<^verbatim>\<open>Nodes\<close> and a predicate that panics make a drive of the source panic; they
  are outside this model. Where a statement below says that a drive returns, the
  nodes driven are nodes of the store and the predicates return.
\<close>

datatype NodeEnum =
    nilEnum
  | oneNode addr
  | fixNodes "addr list"
  | anyNodes NodeEnum
  | childLevelNodes NodeEnum int
  | parentLevelNodes NodeEnum int
  | siblingNodes NodeEnum int
  | prevSiblingNodes NodeEnum
  | nextSiblingNodes NodeEnum
  | firstChildNodes NodeEnum NodeType
  | lastChildNodes NodeEnum NodeType
  | matchedNodes NodeEnum "heap \<Rightarrow> addr \<Rightarrow> bool"
  | textNodes NodeEnum bool

text \<open>What ends a call other than a return: a panic of the runtime or of the package.\<close>

datatype panic = NilDereference | IndexOutOfRange | PanicMsg string

text \<open>\<^verbatim>\<open>for _, node := range p.nodes { if filter(node) == ErrBreak { return } }\<close>\<close>

fun rangeNodes :: "addr list \<Rightarrow> 'u visitor \<Rightarrow> 'u state \<Rightarrow> 'u state option" where
  "rangeNodes [] visit s = Some s"
| "rangeNodes (node # nodes) visit s =
     (case visit node s of
        None \<Rightarrow> None
      | Some (err, s') \<Rightarrow> if err = Some ErrBreak then Some s' else rangeNodes nodes visit s')"

text \<open>
  The visitor that \<^verbatim>\<open>textNodes.ForEach\<close> hands upstream: it allocates the text node,
  replaces the children of \<open>t\<close> when asked to, and calls the visitor on the new node.
\<close>

definition textVisit :: "nat \<Rightarrow> bool \<Rightarrow> 'u visitor \<Rightarrow> 'u visitor" where
  "textVisit n doReplace visit t s =
     (case Text n (fst s) t of
        None \<Rightarrow> None
      | Some txt \<Rightarrow>
          let (node, h1) = newNode (fst s) (zeroNode\<lparr>Parent := Some t, Type := TextNode, Data := txt\<rparr>);
              h2 = (if doReplace
                    then h1\<lparr>cell := (cell h1)(t := (cell h1 t)\<lparr>FirstChild := Some node, LastChild := Some node\<rparr>)\<rparr>
                    else h1)
          in visit node (h2, snd s))"

text \<open>
  The closures that the other enumerators hand upstream, in the order of the source:
  \<^verbatim>\<open>anyNodes\<close> (which drops what \<^verbatim>\<open>anyForEach\<close> returns and answers nil),
  \<^verbatim>\<open>prevSiblingNodes\<close>, \<^verbatim>\<open>nextSiblingNodes\<close>, \<^verbatim>\<open>firstChildNodes\<close>,
  \<^verbatim>\<open>lastChildNodes\<close> and \<^verbatim>\<open>matchedNodes\<close>.
\<close>

definition anyVisit :: "nat \<Rightarrow> 'u visitor \<Rightarrow> 'u visitor" where
  "anyVisit n visit node s =
     (case anyForEach n node visit s of
        None \<Rightarrow> None
      | Some (err, s') \<Rightarrow> Some (None, s'))"

definition prevSiblingsVisit :: "nat \<Rightarrow> 'u visitor \<Rightarrow> 'u visitor" where
  "prevSiblingsVisit n visit node s =
     forLinks n PrevSibling visit (PrevSibling (cell (fst s) node)) s"

definition nextSiblingsVisit :: "nat \<Rightarrow> 'u visitor \<Rightarrow> 'u visitor" where
  "nextSiblingsVisit n visit node s =
     forLinks n NextSibling visit (NextSibling (cell (fst s) node)) s"

definition firstChildVisit :: "nat \<Rightarrow> NodeType \<Rightarrow> 'u visitor \<Rightarrow> 'u visitor" where
  "firstChildVisit n nodeType visit node s =
     (case hq_FirstChild n (fst s) node nodeType of
        None \<Rightarrow> None
      | Some (Inl err) \<Rightarrow> Some (Some err, s)
      | Some (Inr child) \<Rightarrow> visit child s)"

definition lastChildVisit :: "nat \<Rightarrow> NodeType \<Rightarrow> 'u visitor \<Rightarrow> 'u visitor" where
  "lastChildVisit n nodeType visit node s =
     (case hq_LastChild n (fst s) node nodeType of
        None \<Rightarrow> None
      | Some (Inl err) \<Rightarrow> Some (Some err, s)
      | Some (Inr child) \<Rightarrow> visit child s)"

definition matchVisit :: "(heap \<Rightarrow> addr \<Rightarrow> bool) \<Rightarrow> 'u visitor \<Rightarrow> 'u visitor" where
  "matchVisit pred visit node s =
     (if pred (fst s) node then visit node s else Some (Some ErrNotFound, s))"

text \<open>
  \<^verbatim>\<open>ForEach\<close> of every enumerator. A call on the nil interface value panics; every
  other enumerator starts by calling its upstream enumerator, so a panic comes before
  any visit.
\<close>

fun ForEach :: "nat \<Rightarrow> NodeEnum \<Rightarrow> 'u visitor \<Rightarrow> 'u state \<Rightarrow> (panic + 'u state) option" where
  "ForEach n nilEnum visit s = Some (Inl NilDereference)"
| "ForEach n (oneNode p) visit s =
     (case visit p s of None \<Rightarrow> None | Some (err, s') \<Rightarrow> Some (Inr s'))"
| "ForEach n (fixNodes nodes) visit s = map_option Inr (rangeNodes nodes visit s)"
| "ForEach n (anyNodes d) visit s = ForEach n d (anyVisit n visit) s"
| "ForEach n (childLevelNodes d level) visit s =
     ForEach n d (\<lambda>node. childLevelForEach n node level visit) s"
| "ForEach n (parentLevelNodes d level) visit s =
     ForEach n d (\<lambda>node. parentLevelForEach node level visit) s"
| "ForEach n (siblingNodes d delta) visit s =
     ForEach n d (\<lambda>node. siblingForEach node delta visit) s"
| "ForEach n (prevSiblingNodes d) visit s = ForEach n d (prevSiblingsVisit n visit) s"
| "ForEach n (nextSiblingNodes d) visit s = ForEach n d (nextSiblingsVisit n visit) s"
| "ForEach n (firstChildNodes d nodeType) visit s =
     ForEach n d (firstChildVisit n nodeType visit) s"
| "ForEach n (lastChildNodes d nodeType) visit s =
     ForEach n d (lastChildVisit n nodeType visit) s"
| "ForEach n (matchedNodes d pred) visit s = ForEach n d (matchVisit pred visit) s"
| "ForEach n (textNodes d doReplace) visit s = ForEach n d (textVisit n doReplace visit) s"

text \<open>
  \<^verbatim>\<open>Cached()\<close> of the interface \<^verbatim>\<open>cachedNodeEnum\<close>: \<open>None\<close> for a type that has no
  such method, so \<open>Cached d \<noteq> None\<close> is the type assertion
  \<^verbatim>\<open>p.Data.(cachedNodeEnum)\<close>.
\<close>

fun Cached :: "NodeEnum \<Rightarrow> int option" where
  "Cached (oneNode p) = Some 1"
| "Cached (fixNodes nodes) = Some (int (length nodes))"
| "Cached (anyNodes d) = Some (- 1)"
| "Cached d = None"

section \<open>Node sets\<close>

record NodeSet =
  NodeSet_Data :: NodeEnum
  NodeSet_Err :: "error option"

definition Nodes :: "addr list \<Rightarrow> NodeSet" where
  "Nodes nodes = \<lparr>NodeSet_Data = fixNodes nodes, NodeSet_Err = None\<rparr>"

definition NodeSet_Ok :: "NodeSet \<Rightarrow> bool" where
  "NodeSet_Ok p = (NodeSet_Err p = None)"

definition NodeSet_CachedLen :: "NodeSet \<Rightarrow> int" where
  "NodeSet_CachedLen p = (case Cached (NodeSet_Data p) of Some c \<Rightarrow> c | None \<Rightarrow> 0)"

definition NodeSet_Any :: "NodeSet \<Rightarrow> NodeSet" where
  "NodeSet_Any p =
     (if NodeSet_Err p \<noteq> None then p
      else \<lparr>NodeSet_Data = anyNodes (NodeSet_Data p), NodeSet_Err = None\<rparr>)"

definition NodeSet_ChildN :: "NodeSet \<Rightarrow> int \<Rightarrow> NodeSet" where
  "NodeSet_ChildN p level =
     (if NodeSet_Err p \<noteq> None \<or> level = 0 then p
      else if level > 0
        then \<lparr>NodeSet_Data = childLevelNodes (NodeSet_Data p) level, NodeSet_Err = None\<rparr>
        else \<lparr>NodeSet_Data = parentLevelNodes (NodeSet_Data p) level, NodeSet_Err = None\<rparr>)"

definition NodeSet_Child :: "NodeSet \<Rightarrow> NodeSet" where
  "NodeSet_Child p = NodeSet_ChildN p 1"

definition NodeSet_Parent :: "NodeSet \<Rightarrow> NodeSet" where
  "NodeSet_Parent p = NodeSet_ChildN p (- 1)"

definition NodeSet_ParentN :: "NodeSet \<Rightarrow> int \<Rightarrow> NodeSet" where
  "NodeSet_ParentN p level = NodeSet_ChildN p (negInt level)"

definition NodeSet_NextSibling :: "NodeSet \<Rightarrow> int \<Rightarrow> NodeSet" where
  "NodeSet_NextSibling p delta =
     (if NodeSet_Err p \<noteq> None then p
      else \<lparr>NodeSet_Data = siblingNodes (NodeSet_Data p) delta, NodeSet_Err = None\<rparr>)"

definition NodeSet_PrevSibling :: "NodeSet \<Rightarrow> int \<Rightarrow> NodeSet" where
  "NodeSet_PrevSibling p delta = NodeSet_NextSibling p (negInt delta)"

definition NodeSet_PrevSiblings :: "NodeSet \<Rightarrow> NodeSet" where
  "NodeSet_PrevSiblings p =
     (if NodeSet_Err p \<noteq> None then p
      else \<lparr>NodeSet_Data = prevSiblingNodes (NodeSet_Data p), NodeSet_Err = None\<rparr>)"

definition NodeSet_NextSiblings :: "NodeSet \<Rightarrow> NodeSet" where
  "NodeSet_NextSiblings p =
     (if NodeSet_Err p \<noteq> None then p
      else \<lparr>NodeSet_Data = nextSiblingNodes (NodeSet_Data p), NodeSet_Err = None\<rparr>)"

definition NodeSet_FirstChild :: "NodeSet \<Rightarrow> NodeType \<Rightarrow> NodeSet" where
  "NodeSet_FirstChild p nodeType =
     (if NodeSet_Err p \<noteq> None then p
      else \<lparr>NodeSet_Data = firstChildNodes (NodeSet_Data p) nodeType, NodeSet_Err = None\<rparr>)"

definition NodeSet_LastChild :: "NodeSet \<Rightarrow> NodeType \<Rightarrow> NodeSet" where
  "NodeSet_LastChild p nodeType =
     (if NodeSet_Err p \<noteq> None then p
      else \<lparr>NodeSet_Data = lastChildNodes (NodeSet_Data p) nodeType, NodeSet_Err = None\<rparr>)"

definition NodeSet_Match :: "NodeSet \<Rightarrow> (heap \<Rightarrow> addr \<Rightarrow> bool) \<Rightarrow> NodeSet" where
  "NodeSet_Match p pred =
     (if NodeSet_Err p \<noteq> None then p
      else \<lparr>NodeSet_Data = matchedNodes (NodeSet_Data p) pred, NodeSet_Err = None\<rparr>)"

definition NodeSet_ChildrenAsText :: "NodeSet \<Rightarrow> bool \<Rightarrow> NodeSet" where
  "NodeSet_ChildrenAsText p doReplace =
     (if NodeSet_Err p \<noteq> None then p
      else \<lparr>NodeSet_Data = textNodes (NodeSet_Data p) doReplace, NodeSet_Err = None\<rparr>)"

section \<open>Collectors\<close>

text \<open>
  The two closures of \<^verbatim>\<open>CollectOne\<close> over its results \<^verbatim>\<open>item\<close> and \<^verbatim>\<open>err\<close>, and the
  closure of \<^verbatim>\<open>Collect\<close> over \<^verbatim>\<open>items\<close>.
\<close>

definition exactlyVisit :: "(addr option \<times> error option) visitor" where
  "exactlyVisit node s =
     (case s of (h, item, err) \<Rightarrow>
        if err = Some ErrNotFound then Some (None, (h, Some node, None))
        else Some (Some ErrBreak, (h, item, Some ErrTooManyNodes)))"

definition firstVisit :: "(addr option \<times> error option) visitor" where
  "firstVisit node s = (case s of (h, item, err) \<Rightarrow> Some (Some ErrBreak, (h, Some node, None)))"

definition collectVisit :: "(addr list) visitor" where
  "collectVisit node s = (case s of (h, items) \<Rightarrow> Some (None, (h, items @ [node])))"

text \<open>
  \<^verbatim>\<open>CollectOne(exactly ...bool)\<close>: \<open>exactly\<close> is \<open>None\<close> for the nil slice of a call
  without arguments. The result is the pair \<^verbatim>\<open>(item, err)\<close> and the store.
\<close>

definition NodeSet_CollectOne :: "nat \<Rightarrow> NodeSet \<Rightarrow> bool list option \<Rightarrow> heap
    \<Rightarrow> (panic + (addr option \<times> error option) \<times> heap) option" where
  "NodeSet_CollectOne n p exactly h =
     (case NodeSet_Err p of
        Some e \<Rightarrow> Some (Inr ((None, Some e), h))
      | None \<Rightarrow>
         (case exactly of
            Some bs \<Rightarrow>
              (case bs of
                 [] \<Rightarrow> Some (Inl IndexOutOfRange)
               | b # _ \<Rightarrow>
                   if \<not> b then
                     Some (Inl (PanicMsg ''please call `CollectOne()` instead of `CollectOne(false)`''))
                   else
                     (case ForEach n (NodeSet_Data p) exactlyVisit (h, None, Some ErrNotFound) of
                        None \<Rightarrow> None
                      | Some (Inl pn) \<Rightarrow> Some (Inl pn)
                      | Some (Inr (h', item, err)) \<Rightarrow> Some (Inr ((item, err), h'))))
          | None \<Rightarrow>
              (case ForEach n (NodeSet_Data p) firstVisit (h, None, Some ErrNotFound) of
                 None \<Rightarrow> None
               | Some (Inl pn) \<Rightarrow> Some (Inl pn)
               | Some (Inr (h', item, err)) \<Rightarrow> Some (Inr ((item, err), h')))))"

definition NodeSet_Collect :: "nat \<Rightarrow> NodeSet \<Rightarrow> heap
    \<Rightarrow> (panic + (addr list \<times> error option) \<times> heap) option" where
  "NodeSet_Collect n p h =
     (case NodeSet_Err p of
        Some e \<Rightarrow> Some (Inr (([], Some e), h))
      | None \<Rightarrow>
         (case ForEach n (NodeSet_Data p) collectVisit (h, []) of
            None \<Rightarrow> None
          | Some (Inl pn) \<Rightarrow> Some (Inl pn)
          | Some (Inr (h', items)) \<Rightarrow> Some (Inr ((items, None), h'))))"

definition NodeSet_Cache :: "nat \<Rightarrow> NodeSet \<Rightarrow> heap \<Rightarrow> (panic + NodeSet \<times> heap) option" where
  "NodeSet_Cache n p h =
     (if Cached (NodeSet_Data p) \<noteq> None then Some (Inr (p, h))
      else (case NodeSet_Collect n p h of
              None \<Rightarrow> None
            | Some (Inl pn) \<Rightarrow> Some (Inl pn)
            | Some (Inr ((nodes, err), h')) \<Rightarrow>
                (case err of
                   Some e \<Rightarrow> Some (Inr (\<lparr>NodeSet_Data = nilEnum, NodeSet_Err = Some e\<rparr>, h'))
                 | None \<Rightarrow> Some (Inr (\<lparr>NodeSet_Data = fixNodes nodes, NodeSet_Err = None\<rparr>, h')))))"

text \<open>
  \<^verbatim>\<open>One()\<close>. When \<^verbatim>\<open>CollectOne()\<close> returns no error it has been given a node, so the
  node it returns is not nil; the branch for a nil node with no error is never taken
  (lemma \<open>One_gives_oneNode\<close>) and stands for the nil \<^verbatim>\<open>oneNode\<close>.
\<close>

definition NodeSet_One :: "nat \<Rightarrow> NodeSet \<Rightarrow> heap \<Rightarrow> (panic + NodeSet \<times> heap) option" where
  "NodeSet_One n p h =
     (case NodeSet_Data p of
        oneNode x \<Rightarrow> Some (Inr (p, h))
      | _ \<Rightarrow>
        (case NodeSet_CollectOne n p None h of
           None \<Rightarrow> None
         | Some (Inl pn) \<Rightarrow> Some (Inl pn)
         | Some (Inr ((node, err), h')) \<Rightarrow>
             (case err of
                Some e \<Rightarrow> Some (Inr (\<lparr>NodeSet_Data = nilEnum, NodeSet_Err = Some e\<rparr>, h'))
              | None \<Rightarrow>
                 (case node of
                    Some x \<Rightarrow> Some (Inr (\<lparr>NodeSet_Data = oneNode x, NodeSet_Err = None\<rparr>, h'))
                  | None \<Rightarrow> Some (Inr (\<lparr>NodeSet_Data = nilEnum, NodeSet_Err = None\<rparr>, h'))))))"

section \<open>A sample document and instruments\<close>

text \<open>
  The tree that \<^verbatim>\<open>html.Parse\<close> builds from \<^verbatim>\<open><div><p>A</p><p>B</p></div>\<close>:
  the document (0), html (1), head (2), body (3), div (4), p (5) with the text A (6),
  p (7) with the text B (8).
\<close>

definition mk :: "addr option \<Rightarrow> addr option \<Rightarrow> addr option \<Rightarrow> addr option \<Rightarrow> addr option
    \<Rightarrow> NodeType \<Rightarrow> Atom \<Rightarrow> string \<Rightarrow> Node" where
  "mk pa fc lc ps ns ty at d =
     \<lparr>Parent = pa, FirstChild = fc, LastChild = lc, PrevSibling = ps, NextSibling = ns,
      Type = ty, DataAtom = at, Data = d, Attr = []\<rparr>"

definition docHeap :: heap where
  "docHeap = \<lparr>cell = (\<lambda>_. zeroNode)
       (0 := mk None (Some 1) (Some 1) None None DocumentNode NoAtom [],
        1 := mk (Some 0) (Some 2) (Some 3) None None ElementNode (OtherAtom 0) ''html'',
        2 := mk (Some 1) None None None (Some 3) ElementNode (OtherAtom 1) ''head'',
        3 := mk (Some 1) (Some 4) (Some 4) (Some 2) None ElementNode (OtherAtom 2) ''body'',
        4 := mk (Some 3) (Some 5) (Some 7) None None ElementNode atom_Div ''div'',
        5 := mk (Some 4) (Some 6) (Some 6) None (Some 7) ElementNode atom_P ''p'',
        6 := mk (Some 5) None None None None TextNode NoAtom ''A'',
        7 := mk (Some 4) (Some 8) (Some 8) (Some 5) None ElementNode atom_P ''p'',
        8 := mk (Some 7) None None None None TextNode NoAtom ''B''),
     fresh = 9\<rparr>"

text \<open>The predicate \<^verbatim>\<open>node.Type == html.ElementNode\<close>, as given to \<^verbatim>\<open>Match\<close>.\<close>

definition isElement :: "heap \<Rightarrow> addr \<Rightarrow> bool" where
  "isElement h node = (Type (cell h node) = ElementNode)"


text \<open>
  An instrumented visitor: it runs the visitor it is given and also records, in order,
  every node it was called on.
\<close>

definition logged :: "'u visitor \<Rightarrow> (addr list \<times> 'u) visitor" where
  "logged visit node s =
     (case s of (h, seen, u) \<Rightarrow>
        (case visit node (h, u) of
           None \<Rightarrow> None
         | Some (err, (h', u')) \<Rightarrow> Some (err, (h', seen @ [node], u'))))"


text \<open>
  A third instrument accepts every node, as the visitor of \<^verbatim>\<open>Collect\<close> does, and
  records the node together with the store it is called in. A node set that has not
  failed offers the nodes \<open>xs\<close> in the store \<open>h\<close> when its drive by this visitor calls
  it on the nodes \<open>xs\<close>, in this order and every time in the store \<open>h\<close>, and returns
  with the store \<open>h\<close>. \<open>Nodes\<close> of a list offers this list in every store.
\<close>

definition spy :: "((addr \<times> heap) list) visitor" where
  "spy node s = (case s of (h, seen) \<Rightarrow> Some (None, (h, seen @ [(node, h)])))"

definition offers :: "nat \<Rightarrow> NodeSet \<Rightarrow> heap \<Rightarrow> addr list \<Rightarrow> bool" where
  "offers n p h xs =
     (NodeSet_Err p = None \<and>
      ForEach n (NodeSet_Data p) spy (h, []) = Some (Inr (h, map (\<lambda>x. (x, h)) xs)))"


text \<open>The predicate \<^verbatim>\<open>node.Type == html.TextNode\<close>.\<close>

definition isText :: "heap \<Rightarrow> addr \<Rightarrow> bool" where
  "isText h node = (Type (cell h node) = TextNode)"


section \<open>Ancestors and consistent parent links\<close>

text \<open>
  The part of the consistency of the links that the tree builder guarantees and that
  the levels rely on: the first child of a node has that node as its parent, and a next
  sibling has the parent of the node it follows.
\<close>

definition parentsBack :: "heap \<Rightarrow> bool" where
  "parentsBack h =
     ((\<forall>a c. FirstChild (cell h a) = Some c \<longrightarrow> Parent (cell h c) = Some a) \<and>
      (\<forall>c d. NextSibling (cell h c) = Some d \<longrightarrow> Parent (cell h d) = Parent (cell h c)))"

text \<open>The node reached from \<open>c\<close> over \<open>k\<close> parent links, if there are that many.\<close>

fun ancestor :: "heap \<Rightarrow> nat \<Rightarrow> addr \<Rightarrow> addr option" where
  "ancestor h 0 c = Some c"
| "ancestor h (Suc k) c = (case Parent (cell h c) of None \<Rightarrow> None | Some q \<Rightarrow> ancestor h k q)"

section \<open>Trees in the store\<close>

text \<open>
  The shape of a subtree, as a term: \<open>shaped h a t\<close> holds when the node \<open>a\<close> of the
  store \<open>h\<close> is the root of \<open>t\<close> and its chain of children (first child, then next
  siblings, up to nil) carries the subtrees of \<open>t\<close> in order.
\<close>

datatype tree = Tree addr "tree list"

fun chained :: "heap \<Rightarrow> addr option \<Rightarrow> tree list \<Rightarrow> bool" where
  "chained h None [] = True"
| "chained h (Some c) (Tree b ts # rest) =
     (c = b \<and> chained h (FirstChild (cell h c)) ts \<and> chained h (NextSibling (cell h c)) rest)"
| "chained h cur ts = False"

fun shaped :: "heap \<Rightarrow> addr \<Rightarrow> tree \<Rightarrow> bool" where
  "shaped h a (Tree b ts) = (a = b \<and> chained h (FirstChild (cell h a)) ts)"

text \<open>
  For a predicate on nodes: the nodes of a tree in pre-order, not going below a node
  that satisfies the predicate; and the nodes that satisfy it and have no proper
  ancestor in the tree that does, in the same order.
\<close>

fun offered :: "(addr \<Rightarrow> bool) \<Rightarrow> tree \<Rightarrow> addr list" where
  "offered P (Tree a ts) = a # (if P a then [] else concat (map (offered P) ts))"

fun outermost :: "(addr \<Rightarrow> bool) \<Rightarrow> tree \<Rightarrow> addr list" where
  "outermost P (Tree a ts) = (if P a then [a] else concat (map (outermost P) ts))"

text \<open>The root of a tree, and its nodes at a depth, in document order.\<close>

fun root :: "tree \<Rightarrow> addr" where
  "root (Tree a ts) = a"

fun atDepth :: "nat \<Rightarrow> tree \<Rightarrow> addr list" where
  "atDepth 0 (Tree a ts) = [a]"
| "atDepth (Suc k) (Tree a ts) = concat (map (atDepth k) ts)"

text \<open>
  For a visitor that leaves the store alone, given as the function \<open>f\<close> from a node
  and the visitor's state to its answer and its next state: the walk of a tree in
  pre-order from a state \<open>(seen, u)\<close>. Every node walked is handed to \<open>f\<close> and added
  to \<open>seen\<close>; the walk goes below a node only when the answer on it is neither nil nor
  \<^verbatim>\<open>ErrBreak\<close>, and it ends at the first answer \<^verbatim>\<open>ErrBreak\<close>. The result says whether
  it ended so, and gives the final state.
\<close>

fun walk :: "(addr \<Rightarrow> 'u \<Rightarrow> error option \<times> 'u) \<Rightarrow> tree \<Rightarrow> addr list \<times> 'u
    \<Rightarrow> bool \<times> addr list \<times> 'u"
  and walks :: "(addr \<Rightarrow> 'u \<Rightarrow> error option \<times> 'u) \<Rightarrow> tree list \<Rightarrow> addr list \<times> 'u
    \<Rightarrow> bool \<times> addr list \<times> 'u" where
  "walk f (Tree a ts) s =
     (case f a (snd s) of (r, u') \<Rightarrow>
        if r = None then (False, fst s @ [a], u')
        else if r = Some ErrBreak then (True, fst s @ [a], u')
        else walks f ts (fst s @ [a], u'))"
| "walks f [] s = (False, s)"
| "walks f (t # ts) s =
     (case walk f t s of (b, s') \<Rightarrow> if b then (True, s') else walks f ts s')"

text \<open>Fuel that is enough to walk a tree.\<close>

fun need :: "tree \<Rightarrow> nat" where
  "need (Tree a ts) = Suc (Suc (length ts + sum_list (map need ts)))"

section \<open>Answering Break\<close>

text \<open>An enumerator chain without a deep search (\<^verbatim>\<open>anyNodes\<close>) in it.\<close>

fun anyFree :: "NodeEnum \<Rightarrow> bool" where
  "anyFree nilEnum = True"
| "anyFree (oneNode p) = True"
| "anyFree (fixNodes nodes) = True"
| "anyFree (anyNodes d) = False"
| "anyFree (childLevelNodes d level) = anyFree d"
| "anyFree (parentLevelNodes d level) = anyFree d"
| "anyFree (siblingNodes d delta) = anyFree d"
| "anyFree (prevSiblingNodes d) = anyFree d"
| "anyFree (nextSiblingNodes d) = anyFree d"
| "anyFree (firstChildNodes d nodeType) = anyFree d"
| "anyFree (lastChildNodes d nodeType) = anyFree d"
| "anyFree (matchedNodes d pred) = anyFree d"
| "anyFree (textNodes d doReplace) = anyFree d"

text \<open>
  A second instrument: it runs the visitor it is given, remembers in \<open>broke\<close> whether
  the visitor has answered \<^verbatim>\<open>ErrBreak\<close>, and sets \<open>late\<close> when the visitor is called
  again after that.
\<close>

definition guarded :: "'u visitor \<Rightarrow> (bool \<times> bool \<times> 'u) visitor" where
  "guarded visit node s =
     (case s of (h, broke, late, u) \<Rightarrow>
        (case visit node (h, u) of
           None \<Rightarrow> None
         | Some (err, (h', u')) \<Rightarrow>
             Some (err, (h', broke \<or> err = Some ErrBreak, late \<or> broke, u'))))"

text \<open>
  A computation propagates Break, for a set \<open>B\<close> of visitor states that is entered only
  with the answer \<^verbatim>\<open>ErrBreak\<close> and a set \<open>L\<close> of states to be avoided, when from a
  state outside both it does not reach \<open>L\<close>, and answers \<^verbatim>\<open>ErrBreak\<close> if it ends in
  \<open>B\<close>.
\<close>

definition propagates :: "('a \<Rightarrow> bool) \<Rightarrow> ('a \<Rightarrow> bool)
    \<Rightarrow> ('a state \<Rightarrow> (error option \<times> 'a state) option) \<Rightarrow> bool" where
  "propagates B L d =
     (\<forall>h u r h' u'. d (h, u) = Some (r, (h', u')) \<longrightarrow> \<not> B u \<longrightarrow> \<not> L u \<longrightarrow>
        \<not> L u' \<and> (B u' \<longrightarrow> r = Some ErrBreak))"

section \<open>Relating two visitors\<close>

text \<open>
  Two computations on the store, each with the variables of its own visitor, correspond
  when every returning run of the first is matched by a run of the second that returns
  the same answer and the same store from related variables to related variables, as
  long as the first has not reached the set \<open>A\<close>; the first never leaves \<open>A\<close>.
\<close>

definition sim :: "('a \<Rightarrow> 'b \<Rightarrow> bool) \<Rightarrow> ('a \<Rightarrow> bool) \<Rightarrow> ('a state \<Rightarrow> ('r \<times> 'a state) option)
    \<Rightarrow> ('b state \<Rightarrow> ('r \<times> 'b state) option) \<Rightarrow> bool" where
  "sim Q A d1 d2 =
     (\<forall>h u1 r h' u1'. d1 (h, u1) = Some (r, (h', u1')) \<longrightarrow>
        (A u1 \<longrightarrow> A u1') \<and>
        (\<forall>u2. Q u1 u2 \<longrightarrow> A u1' \<or> (\<exists>u2'. d2 (h, u2) = Some (r, (h', u2')) \<and> Q u1' u2')))"

section \<open>Evaluation rules\<close>

lemma docHeap_cell:
  "cell docHeap 0 = mk None (Some 1) (Some 1) None None DocumentNode NoAtom []"
  "cell docHeap 1 = mk (Some 0) (Some 2) (Some 3) None None ElementNode (OtherAtom 0) ''html''"
  "cell docHeap 2 = mk (Some 1) None None None (Some 3) ElementNode (OtherAtom 1) ''head''"
  "cell docHeap 3 = mk (Some 1) (Some 4) (Some 4) (Some 2) None ElementNode (OtherAtom 2) ''body''"
  "cell docHeap 4 = mk (Some 3) (Some 5) (Some 7) None None ElementNode atom_Div ''div''"
  "cell docHeap 5 = mk (Some 4) (Some 6) (Some 6) None (Some 7) ElementNode atom_P ''p''"
  "cell docHeap 6 = mk (Some 5) None None None None TextNode NoAtom ''A''"
  "cell docHeap 7 = mk (Some 4) (Some 8) (Some 8) (Some 5) None ElementNode atom_P ''p''"
  "cell docHeap 8 = mk (Some 7) None None None None TextNode NoAtom ''B''"
  by (simp_all add: docHeap_def)

lemma mk_sel:
  "Parent (mk pa fc lc ps ns ty at d) = pa"
  "FirstChild (mk pa fc lc ps ns ty at d) = fc"
  "LastChild (mk pa fc lc ps ns ty at d) = lc"
  "PrevSibling (mk pa fc lc ps ns ty at d) = ps"
  "NextSibling (mk pa fc lc ps ns ty at d) = ns"
  "Type (mk pa fc lc ps ns ty at d) = ty"
  "DataAtom (mk pa fc lc ps ns ty at d) = at"
  "Data (mk pa fc lc ps ns ty at d) = d"
  by (simp_all add: mk_def)


lemma fuel_numeral:
  "forLinks (numeral k) link body None s = Some (None, s)"
  "forLinks (numeral k) link body (Some node) s =
     (case body node s of
        None \<Rightarrow> None
      | Some (err, s') \<Rightarrow>
          if err = Some ErrBreak then Some (Some ErrBreak, s')
          else forLinks (pred_numeral k) link body (link (cell (fst s') node)) s')"
  "anyForEach (numeral k) p visit s =
     (case visit p s of
        None \<Rightarrow> None
      | Some (err, s') \<Rightarrow>
          if err = None \<or> err = Some ErrBreak then Some (err, s')
          else forLinks (pred_numeral k) NextSibling (\<lambda>node. anyForEach (pred_numeral k) node visit)
                 (FirstChild (cell (fst s') p)) s')"
  "childLevelForEach (numeral k) p level visit s =
     (if level = 0 then visit p s
      else forLinks (pred_numeral k) NextSibling
             (\<lambda>node. childLevelForEach (pred_numeral k) node (level - 1) visit)
             (FirstChild (cell (fst s) p)) s)"
  "firstOfType (numeral k) h None nodeType = Some (Inl ErrNotFound)"
  "firstOfType (numeral k) h (Some p) nodeType =
     (if Type (cell h p) = nodeType then Some (Inr p)
      else firstOfType (pred_numeral k) h (NextSibling (cell h p)) nodeType)"
  "lastOfType (numeral k) h None nodeType = Some (Inl ErrNotFound)"
  "lastOfType (numeral k) h (Some p) nodeType =
     (if Type (cell h p) = nodeType then Some (Inr p)
      else lastOfType (pred_numeral k) h (PrevSibling (cell h p)) nodeType)"
  "printNode (numeral k) h None pr = Some pr"
  "printNode (numeral k) h (Some node) pr =
     (if Type (cell h node) = TextNode
      then Some (printText pr (Trim (Data (cell h node)) blanks))
      else (case printChildren (pred_numeral k) h (FirstChild (cell h node)) pr of
              None \<Rightarrow> None
            | Some p' \<Rightarrow>
                Some (if DataAtom (cell h node) = atom_P
                      then p'\<lparr>data := data p' @ [CHR 0x0A], notLineStart := False\<rparr>
                      else p')))"
  "printChildren (numeral k) h None pr = Some pr"
  "printChildren (numeral k) h (Some child) pr =
     (case printNode (pred_numeral k) h (Some child) pr of
        None \<Rightarrow> None
      | Some p' \<Rightarrow> printChildren (pred_numeral k) h (NextSibling (cell h child)) p')"
  by (simp_all add: numeral_eq_Suc)

lemmas run_simps = docHeap_cell mk_sel fuel_numeral
  parentLevelForEach.simps siblingForEach.simps anyVisit_def matchVisit_def
  NodeSet_Collect_def NodeSet_CollectOne_def NodeSet_Cache_def NodeSet_One_def
  NodeSet_Match_def NodeSet_Any_def NodeSet_ChildN_def NodeSet_Child_def NodeSet_Parent_def NodeSet_CachedLen_def
  Nodes_def collectVisit_def exactlyVisit_def firstVisit_def logged_def isElement_def


section \<open>Every enumerator treats corresponding visitors alike\<close>

lemma simD1: "sim Q A d1 d2 \<Longrightarrow> d1 (h, u1) = Some (r, (h', u1')) \<Longrightarrow> A u1 \<Longrightarrow> A u1'"
  unfolding sim_def by blast

lemma simD2:
  "sim Q A d1 d2 \<Longrightarrow> d1 (h, u1) = Some (r, (h', u1')) \<Longrightarrow> Q u1 u2 \<Longrightarrow> \<not> A u1' \<Longrightarrow>
     \<exists>u2'. d2 (h, u2) = Some (r, (h', u2')) \<and> Q u1' u2'"
  unfolding sim_def by blast

lemma simI:
  assumes "\<And>h u1 r h' u1'. d1 (h, u1) = Some (r, (h', u1')) \<Longrightarrow> A u1 \<Longrightarrow> A u1'"
    and "\<And>h u1 u2 r h' u1'. d1 (h, u1) = Some (r, (h', u1')) \<Longrightarrow> Q u1 u2 \<Longrightarrow> \<not> A u1' \<Longrightarrow>
           \<exists>u2'. d2 (h, u2) = Some (r, (h', u2')) \<and> Q u1' u2'"
  shows "sim Q A d1 d2"
  unfolding sim_def using assms by blast

lemma sim_bind:
  assumes d: "sim Q A d1 d2" and k: "\<And>r h. sim Q A (k1 r h) (k2 r h)"
  shows "sim Q A (\<lambda>s. case d1 s of None \<Rightarrow> None | Some (r, s') \<Rightarrow> k1 r (fst s') s')
                 (\<lambda>s. case d2 s of None \<Rightarrow> None | Some (r, s') \<Rightarrow> k2 r (fst s') s')"
proof (rule simI)
  fix h u1 r h' u1'
  assume run: "(case d1 (h, u1) of None \<Rightarrow> None | Some (r, s') \<Rightarrow> k1 r (fst s') s') = Some (r, (h', u1'))"
  then obtain r0 h0 u0 where a: "d1 (h, u1) = Some (r0, (h0, u0))"
    and b: "k1 r0 h0 (h0, u0) = Some (r, (h', u1'))"
    by (auto split: option.splits)
  { assume "A u1"
    with a d have "A u0" by (rule_tac simD1)
    with b k show "A u1'" by (rule_tac simD1) }
  { fix u2 assume q: "Q u1 u2" and na: "\<not> A u1'"
    have "\<not> A u0" using na b k [of r0 h0] by (auto dest: simD1)
    with simD2 [OF d a q] obtain u2a where c: "d2 (h, u2) = Some (r0, (h0, u2a))" and q': "Q u0 u2a"
      by blast
    from simD2 [OF k b q' na] obtain u2' where "k2 r0 h0 (h0, u2a) = Some (r, (h', u2'))" "Q u1' u2'"
      by blast
    with c show "\<exists>u2'. (case d2 (h, u2) of None \<Rightarrow> None | Some (r, s') \<Rightarrow> k2 r (fst s') s') = Some (r, (h', u2')) \<and> Q u1' u2'"
      by auto }
qed

lemma sim_return: "sim Q A (\<lambda>s. Some (r, s)) (\<lambda>s. Some (r, s))"
  by (rule simI) auto

lemma sim_None: "sim Q A (\<lambda>s. None) d2"
  by (rule simI) auto

lemma sim_seq:
  assumes "sim Q A d1 d2" and "\<And>r h. sim Q A (k1 r h) (k2 r h)"
    and "\<And>s. f1 s = (case d1 s of None \<Rightarrow> None | Some (r, s') \<Rightarrow> k1 r (fst s') s')"
    and "\<And>s. f2 s = (case d2 s of None \<Rightarrow> None | Some (r, s') \<Rightarrow> k2 r (fst s') s')"
  shows "sim Q A f1 f2"
proof -
  have "f1 = (\<lambda>s. case d1 s of None \<Rightarrow> None | Some (r, s') \<Rightarrow> k1 r (fst s') s')"
    and "f2 = (\<lambda>s. case d2 s of None \<Rightarrow> None | Some (r, s') \<Rightarrow> k2 r (fst s') s')"
    using assms(3,4) by auto
  then show ?thesis using sim_bind [OF assms(1,2)] by simp
qed

lemma sim_read:
  assumes "\<And>h. sim Q A (k1 h) (k2 h)"
    and "\<And>s. f1 s = k1 (fst s) s" and "\<And>s. f2 s = k2 (fst s) s"
  shows "sim Q A f1 f2"
proof (rule simI)
  fix h u1 r h' u1'
  assume run: "f1 (h, u1) = Some (r, (h', u1'))"
  then have a: "k1 h (h, u1) = Some (r, (h', u1'))" by (simp add: assms(2))
  { assume "A u1" with a assms(1) show "A u1'" by (rule_tac simD1) }
  { fix u2 assume "Q u1 u2" "\<not> A u1'"
    from simD2 [OF assms(1) a this] show "\<exists>u2'. f2 (h, u2) = Some (r, h', u2') \<and> Q u1' u2'"
      by (simp add: assms(3)) }
qed

lemma sim_forLinks:
  assumes "\<And>x. sim Q A (b1 x) (b2 x)"
  shows "sim Q A (forLinks n link b1 cur) (forLinks n link b2 cur)"
proof (induction n arbitrary: cur)
  case 0
  show ?case by (rule simI) auto
next
  case (Suc n)
  show ?case
  proof (cases cur)
    case None
    then show ?thesis by (auto intro: simI)
  next
    case (Some node)
    show ?thesis unfolding Some
      by (rule sim_seq [where ?d1.0 = "b1 node" and ?d2.0 = "b2 node"
            and ?k1.0 = "\<lambda>r h. if r = Some ErrBreak then (\<lambda>s. Some (Some ErrBreak, s))
                                 else forLinks n link b1 (link (cell h node))"
            and ?k2.0 = "\<lambda>r h. if r = Some ErrBreak then (\<lambda>s. Some (Some ErrBreak, s))
                                 else forLinks n link b2 (link (cell h node))"])
        (auto simp: assms sim_return Suc.IH split: option.splits)
  qed
qed

lemma sim_anyForEach:
  assumes "\<And>x. sim Q A (v1 x) (v2 x)"
  shows "sim Q A (anyForEach n p v1) (anyForEach n p v2)"
proof (induction n arbitrary: p)
  case 0
  show ?case by (rule simI) auto
next
  case (Suc n)
  show ?case
    by (rule sim_seq [where ?d1.0 = "v1 p" and ?d2.0 = "v2 p"
          and ?k1.0 = "\<lambda>r h. if r = None \<or> r = Some ErrBreak then (\<lambda>s. Some (r, s))
                 else forLinks n NextSibling (\<lambda>node. anyForEach n node v1) (FirstChild (cell h p))"
          and ?k2.0 = "\<lambda>r h. if r = None \<or> r = Some ErrBreak then (\<lambda>s. Some (r, s))
                 else forLinks n NextSibling (\<lambda>node. anyForEach n node v2) (FirstChild (cell h p))"])
      (auto simp: assms sim_return Suc.IH sim_forLinks split: option.splits)
qed

lemma sim_childLevelForEach:
  assumes "\<And>x. sim Q A (v1 x) (v2 x)"
  shows "sim Q A (childLevelForEach n p level v1) (childLevelForEach n p level v2)"
proof (induction n arbitrary: p level)
  case 0
  show ?case by (rule simI) auto
next
  case (Suc n)
  show ?case
    by (rule sim_read [where
          ?k1.0 = "\<lambda>h. if level = 0 then v1 p
                 else forLinks n NextSibling (\<lambda>node. childLevelForEach n node (level - 1) v1) (FirstChild (cell h p))"
          and ?k2.0 = "\<lambda>h. if level = 0 then v2 p
                 else forLinks n NextSibling (\<lambda>node. childLevelForEach n node (level - 1) v2) (FirstChild (cell h p))"])
      (auto simp: assms Suc.IH sim_forLinks)
qed

lemma sim_parentLevelForEach:
  assumes "\<And>x. sim Q A (v1 x) (v2 x)"
  shows "sim Q A (parentLevelForEach p level v1) (parentLevelForEach p level v2)"
proof (induction "nat (- level)" arbitrary: p level)
  case 0
  then have "\<not> level < 0" by simp
  then have "parentLevelForEach p level v1 = v1 p" "parentLevelForEach p level v2 = v2 p"
    by (auto simp: fun_eq_iff parentLevelForEach.simps)
  then show ?case by (simp add: assms)
next
  case (Suc k)
  then have neg: "level < 0" and k: "k = nat (- (level + 1))" by auto
  show ?case
    by (rule sim_read [where
          ?k1.0 = "\<lambda>h. case Parent (cell h p) of None \<Rightarrow> (\<lambda>s. Some (Some ErrNotFound, s))
                        | Some q \<Rightarrow> parentLevelForEach q (level + 1) v1"
          and ?k2.0 = "\<lambda>h. case Parent (cell h p) of None \<Rightarrow> (\<lambda>s. Some (Some ErrNotFound, s))
                        | Some q \<Rightarrow> parentLevelForEach q (level + 1) v2"])
      (use neg in \<open>auto simp: sim_return Suc(1)[OF k] parentLevelForEach.simps [of p] split: option.splits\<close>)
qed

lemma sim_siblingForEach:
  assumes "\<And>x. sim Q A (v1 x) (v2 x)"
  shows "sim Q A (siblingForEach p delta v1) (siblingForEach p delta v2)"
proof (induction "nat \<bar>delta\<bar>" arbitrary: p delta)
  case 0
  then have "delta = 0" by simp
  then have "siblingForEach p delta v1 = v1 p" "siblingForEach p delta v2 = v2 p"
    by (auto simp: fun_eq_iff siblingForEach.simps)
  then show ?case by (simp add: assms)
next
  case (Suc k)
  then have k: "delta > 0 \<Longrightarrow> k = nat \<bar>delta - 1\<bar>" "delta < 0 \<Longrightarrow> k = nat \<bar>delta + 1\<bar>"
    and nz: "delta \<noteq> 0" by auto
  show ?case
    by (rule sim_read [where
          ?k1.0 = "\<lambda>h. if delta > 0 then
                         (case NextSibling (cell h p) of None \<Rightarrow> (\<lambda>s. Some (Some ErrNotFound, s))
                          | Some q \<Rightarrow> siblingForEach q (delta - 1) v1)
                       else (case PrevSibling (cell h p) of None \<Rightarrow> (\<lambda>s. Some (Some ErrNotFound, s))
                          | Some q \<Rightarrow> siblingForEach q (delta + 1) v1)"
          and ?k2.0 = "\<lambda>h. if delta > 0 then
                         (case NextSibling (cell h p) of None \<Rightarrow> (\<lambda>s. Some (Some ErrNotFound, s))
                          | Some q \<Rightarrow> siblingForEach q (delta - 1) v2)
                       else (case PrevSibling (cell h p) of None \<Rightarrow> (\<lambda>s. Some (Some ErrNotFound, s))
                          | Some q \<Rightarrow> siblingForEach q (delta + 1) v2)"])
      (use nz in \<open>auto simp: sim_return Suc(1)[OF k(1)] Suc(1)[OF k(2)] siblingForEach.simps [of p] split: option.splits\<close>)
qed

lemma sim_rangeNodes:
  assumes "\<And>x. sim Q A (v1 x) (v2 x)" and "rangeNodes nodes v1 (h, u1) = Some (h', u1')"
  shows "(A u1 \<longrightarrow> A u1') \<and>
         (\<forall>u2. Q u1 u2 \<longrightarrow> A u1' \<or> (\<exists>u2'. rangeNodes nodes v2 (h, u2) = Some (h', u2') \<and> Q u1' u2'))"
  using assms(2)
proof (induction nodes arbitrary: h u1)
  case Nil
  then show ?case by auto
next
  case (Cons x xs)
  from Cons.prems obtain r h0 u0 where a: "v1 x (h, u1) = Some (r, (h0, u0))"
    and b: "if r = Some ErrBreak then (h0, u0) = (h', u1') else rangeNodes xs v1 (h0, u0) = Some (h', u1')"
    by (auto split: option.splits if_splits)
  show ?case
  proof (cases "r = Some ErrBreak")
    case True
    with a b show ?thesis
      using simD1 [OF assms(1) a] simD2 [OF assms(1) a] by fastforce
  next
    case False
    with b have c: "rangeNodes xs v1 (h0, u0) = Some (h', u1')" by simp
    note ih = Cons.IH [OF c]
    show ?thesis
    proof (intro conjI allI impI)
      assume "A u1" then show "A u1'" using simD1 [OF assms(1) a] ih by blast
    next
      fix u2 assume q: "Q u1 u2"
      show "A u1' \<or> (\<exists>u2'. rangeNodes (x # xs) v2 (h, u2) = Some (h', u2') \<and> Q u1' u2')"
      proof (cases "A u1'")
        case True then show ?thesis by simp
      next
        case na: False
        then have "\<not> A u0" using ih by blast
        from simD2 [OF assms(1) a q this] obtain u2a
          where d: "v2 x (h, u2) = Some (r, (h0, u2a))" and q': "Q u0 u2a" by blast
        with ih na obtain u2' where "rangeNodes xs v2 (h0, u2a) = Some (h', u2')" "Q u1' u2'"
          by blast
        with d False show ?thesis by simp
      qed
    qed
  qed
qed

lemma sim_anyVisit: "(\<And>x. sim Q A (v1 x) (v2 x)) \<Longrightarrow> sim Q A (anyVisit n v1 x) (anyVisit n v2 x)"
  by (rule sim_seq [where ?d1.0 = "anyForEach n x v1" and ?d2.0 = "anyForEach n x v2"
        and ?k1.0 = "\<lambda>r h s. Some (None, s)" and ?k2.0 = "\<lambda>r h s. Some (None, s)"])
    (auto simp: sim_anyForEach sim_return anyVisit_def split: option.splits)

lemma sim_prevSiblingsVisit:
  "(\<And>x. sim Q A (v1 x) (v2 x)) \<Longrightarrow> sim Q A (prevSiblingsVisit n v1 x) (prevSiblingsVisit n v2 x)"
  by (rule sim_read [where ?k1.0 = "\<lambda>h. forLinks n PrevSibling v1 (PrevSibling (cell h x))"
        and ?k2.0 = "\<lambda>h. forLinks n PrevSibling v2 (PrevSibling (cell h x))"])
    (auto simp: sim_forLinks prevSiblingsVisit_def)

lemma sim_nextSiblingsVisit:
  "(\<And>x. sim Q A (v1 x) (v2 x)) \<Longrightarrow> sim Q A (nextSiblingsVisit n v1 x) (nextSiblingsVisit n v2 x)"
  by (rule sim_read [where ?k1.0 = "\<lambda>h. forLinks n NextSibling v1 (NextSibling (cell h x))"
        and ?k2.0 = "\<lambda>h. forLinks n NextSibling v2 (NextSibling (cell h x))"])
    (auto simp: sim_forLinks nextSiblingsVisit_def)

lemma sim_firstChildVisit:
  "(\<And>x. sim Q A (v1 x) (v2 x)) \<Longrightarrow>
     sim Q A (firstChildVisit n nodeType v1 x) (firstChildVisit n nodeType v2 x)"
  by (rule sim_read [where
        ?k1.0 = "\<lambda>h. case hq_FirstChild n h x nodeType of None \<Rightarrow> (\<lambda>s. None)
                      | Some (Inl err) \<Rightarrow> (\<lambda>s. Some (Some err, s)) | Some (Inr child) \<Rightarrow> v1 child"
        and ?k2.0 = "\<lambda>h. case hq_FirstChild n h x nodeType of None \<Rightarrow> (\<lambda>s. None)
                      | Some (Inl err) \<Rightarrow> (\<lambda>s. Some (Some err, s)) | Some (Inr child) \<Rightarrow> v2 child"])
    (auto simp: sim_return sim_None firstChildVisit_def split: option.splits sum.splits)

lemma sim_lastChildVisit:
  "(\<And>x. sim Q A (v1 x) (v2 x)) \<Longrightarrow>
     sim Q A (lastChildVisit n nodeType v1 x) (lastChildVisit n nodeType v2 x)"
  by (rule sim_read [where
        ?k1.0 = "\<lambda>h. case hq_LastChild n h x nodeType of None \<Rightarrow> (\<lambda>s. None)
                      | Some (Inl err) \<Rightarrow> (\<lambda>s. Some (Some err, s)) | Some (Inr child) \<Rightarrow> v1 child"
        and ?k2.0 = "\<lambda>h. case hq_LastChild n h x nodeType of None \<Rightarrow> (\<lambda>s. None)
                      | Some (Inl err) \<Rightarrow> (\<lambda>s. Some (Some err, s)) | Some (Inr child) \<Rightarrow> v2 child"])
    (auto simp: sim_return sim_None lastChildVisit_def split: option.splits sum.splits)

lemma sim_matchVisit:
  "(\<And>x. sim Q A (v1 x) (v2 x)) \<Longrightarrow> sim Q A (matchVisit pred v1 x) (matchVisit pred v2 x)"
  by (rule sim_read [where
        ?k1.0 = "\<lambda>h. if pred h x then v1 x else (\<lambda>s. Some (Some ErrNotFound, s))"
        and ?k2.0 = "\<lambda>h. if pred h x then v2 x else (\<lambda>s. Some (Some ErrNotFound, s))"])
    (auto simp: sim_return matchVisit_def)

lemma sim_textVisit:
  assumes "\<And>x. sim Q A (v1 x) (v2 x)"
  shows "sim Q A (textVisit n doReplace v1 t) (textVisit n doReplace v2 t)"
proof (rule simI)
  fix h u1 r h' u1'
  assume run: "textVisit n doReplace v1 t (h, u1) = Some (r, (h', u1'))"
  then obtain tx where tx: "Text n h t = Some tx"
    by (auto simp: textVisit_def split: option.splits)
  define nd where "nd = zeroNode\<lparr>Parent := Some t, Type := TextNode, Data := tx\<rparr>"
  define h1 where "h1 = snd (newNode h nd)"
  define h2 where "h2 = (if doReplace
      then h1\<lparr>cell := (cell h1)(t := (cell h1 t)\<lparr>FirstChild := Some (fresh h), LastChild := Some (fresh h)\<rparr>)\<rparr>
      else h1)"
  have call1: "textVisit n doReplace v1 t (h, u) = v1 (fresh h) (h2, u)" for u
    using tx by (simp add: textVisit_def newNode_def h2_def h1_def nd_def)
  have call2: "textVisit n doReplace v2 t (h, u) = v2 (fresh h) (h2, u)" for u
    using tx by (simp add: textVisit_def newNode_def h2_def h1_def nd_def)
  from run have a: "v1 (fresh h) (h2, u1) = Some (r, (h', u1'))" by (simp add: call1)
  { assume "A u1" with a assms show "A u1'" by (rule_tac simD1) }
  { fix u2 assume "Q u1 u2" "\<not> A u1'"
    from simD2 [OF assms a this]
    show "\<exists>u2'. textVisit n doReplace v2 t (h, u2) = Some (r, (h', u2')) \<and> Q u1' u2'"
      by (simp add: call2) }
qed

lemma sim_ForEach:
  assumes "\<And>x. sim Q A (v1 x) (v2 x)" and "ForEach n d v1 (h, u1) = Some (Inr (h', u1'))"
  shows "(A u1 \<longrightarrow> A u1') \<and>
         (\<forall>u2. Q u1 u2 \<longrightarrow> A u1' \<or> (\<exists>u2'. ForEach n d v2 (h, u2) = Some (Inr (h', u2')) \<and> Q u1' u2'))"
  using assms
proof (induction d arbitrary: v1 v2)
  case nilEnum
  then show ?case by simp
next
  case (oneNode p)
  from oneNode(2) obtain r where a: "v1 p (h, u1) = Some (r, (h', u1'))"
    by (auto split: option.splits)
  show ?case using simD1 [OF oneNode(1) a] simD2 [OF oneNode(1) a] by fastforce
next
  case (fixNodes nodes)
  then have "rangeNodes nodes v1 (h, u1) = Some (h', u1')" by auto
  from sim_rangeNodes [OF fixNodes(1) this] show ?case by simp
next
  case (anyNodes d)
  show ?case using anyNodes.IH [of "anyVisit n v1" "anyVisit n v2"] anyNodes.prems
    by (simp add: sim_anyVisit)
next
  case (childLevelNodes d level)
  show ?case
    using childLevelNodes.IH [of "\<lambda>node. childLevelForEach n node level v1"
        "\<lambda>node. childLevelForEach n node level v2"] childLevelNodes.prems
    by (simp add: sim_childLevelForEach)
next
  case (parentLevelNodes d level)
  show ?case
    using parentLevelNodes.IH [of "\<lambda>node. parentLevelForEach node level v1"
        "\<lambda>node. parentLevelForEach node level v2"] parentLevelNodes.prems
    by (simp add: sim_parentLevelForEach)
next
  case (siblingNodes d delta)
  show ?case
    using siblingNodes.IH [of "\<lambda>node. siblingForEach node delta v1"
        "\<lambda>node. siblingForEach node delta v2"] siblingNodes.prems
    by (simp add: sim_siblingForEach)
next
  case (prevSiblingNodes d)
  show ?case
    using prevSiblingNodes.IH [of "prevSiblingsVisit n v1" "prevSiblingsVisit n v2"]
      prevSiblingNodes.prems
    by (simp add: sim_prevSiblingsVisit)
next
  case (nextSiblingNodes d)
  show ?case
    using nextSiblingNodes.IH [of "nextSiblingsVisit n v1" "nextSiblingsVisit n v2"]
      nextSiblingNodes.prems
    by (simp add: sim_nextSiblingsVisit)
next
  case (firstChildNodes d nodeType)
  show ?case
    using firstChildNodes.IH [of "firstChildVisit n nodeType v1" "firstChildVisit n nodeType v2"]
      firstChildNodes.prems
    by (simp add: sim_firstChildVisit)
next
  case (lastChildNodes d nodeType)
  show ?case
    using lastChildNodes.IH [of "lastChildVisit n nodeType v1" "lastChildVisit n nodeType v2"]
      lastChildNodes.prems
    by (simp add: sim_lastChildVisit)
next
  case (matchedNodes d pred)
  show ?case
    using matchedNodes.IH [of "matchVisit pred v1" "matchVisit pred v2"] matchedNodes.prems
    by (simp add: sim_matchVisit)
next
  case (textNodes d doReplace)
  show ?case
    using textNodes.IH [of "textVisit n doReplace v1" "textVisit n doReplace v2"] textNodes.prems
    by (simp add: sim_textVisit)
qed

text \<open>The instrument does not change what the visitor does.\<close>

lemma sim_logged_erase:
  "sim (\<lambda>u1 u2. u2 = snd u1) (\<lambda>u1. False) (logged visit x) (visit x)"
  by (rule simI) (auto simp: logged_def split: option.splits)

section \<open>What CollectOne hands to One\<close>

lemma sim_first_inv:
  "sim (\<lambda>u1 u2. u2 = u1 \<and> (snd u1 = None \<longrightarrow> fst u1 \<noteq> None)) (\<lambda>u1. False)
     (firstVisit x) (firstVisit x)"
  by (rule simI) (auto simp: firstVisit_def)

lemma firstVisit_item:
  assumes "ForEach n d firstVisit (h, None, Some ErrNotFound) = Some (Inr (h', item, None))"
  shows "item \<noteq> None"
  using sim_ForEach [OF sim_first_inv assms] by auto

lemma One_gives_oneNode:
  assumes "NodeSet_Err p = None" and "NodeSet_One n p h = Some (Inr (q, h'))"
    and "NodeSet_Err q = None"
  shows "\<exists>x. NodeSet_Data q = oneNode x"
proof (cases "\<exists>x. NodeSet_Data p = oneNode x")
  case True
  with assms show ?thesis by (auto simp: NodeSet_One_def)
next
  case False
  then have "NodeSet_One n p h =
      (case NodeSet_CollectOne n p None h of
         None \<Rightarrow> None
       | Some (Inl pn) \<Rightarrow> Some (Inl pn)
       | Some (Inr ((node, err), h')) \<Rightarrow>
           (case err of
              Some e \<Rightarrow> Some (Inr (\<lparr>NodeSet_Data = nilEnum, NodeSet_Err = Some e\<rparr>, h'))
            | None \<Rightarrow>
               (case node of
                  Some x \<Rightarrow> Some (Inr (\<lparr>NodeSet_Data = oneNode x, NodeSet_Err = None\<rparr>, h'))
                | None \<Rightarrow> Some (Inr (\<lparr>NodeSet_Data = nilEnum, NodeSet_Err = None\<rparr>, h')))))"
    by (cases "NodeSet_Data p") (simp_all add: NodeSet_One_def)
  with assms(2,3) obtain node where
    c: "NodeSet_CollectOne n p None h = Some (Inr ((node, None), h'))"
    and q: "q = (case node of Some x \<Rightarrow> \<lparr>NodeSet_Data = oneNode x, NodeSet_Err = None\<rparr>
                 | None \<Rightarrow> \<lparr>NodeSet_Data = nilEnum, NodeSet_Err = None\<rparr>)"
    by (auto split: option.splits sum.splits)
  from c assms(1) have "ForEach n (NodeSet_Data p) firstVisit (h, None, Some ErrNotFound)
      = Some (Inr (h', node, None))"
    by (auto simp: NodeSet_CollectOne_def split: option.splits sum.splits)
  from firstVisit_item [OF this] q show ?thesis by auto
qed

section \<open>Break ends every drive that has no deep search\<close>

lemma propagatesD:
  "propagates B L d \<Longrightarrow> d (h, u) = Some (r, (h', u')) \<Longrightarrow> \<not> B u \<Longrightarrow> \<not> L u \<Longrightarrow>
     \<not> L u' \<and> (B u' \<longrightarrow> r = Some ErrBreak)"
  unfolding propagates_def by blast

lemma propagatesI:
  "(\<And>h u r h' u'. d (h, u) = Some (r, (h', u')) \<Longrightarrow> \<not> B u \<Longrightarrow> \<not> L u \<Longrightarrow>
     \<not> L u' \<and> (B u' \<longrightarrow> r = Some ErrBreak)) \<Longrightarrow> propagates B L d"
  unfolding propagates_def by blast

lemma propagates_forLinks:
  assumes "\<And>x. propagates B L (body x)"
  shows "propagates B L (forLinks n link body cur)"
proof (induction n arbitrary: cur)
  case 0
  show ?case by (rule propagatesI) simp
next
  case (Suc n)
  show ?case
  proof (rule propagatesI)
    fix h u r h' u'
    assume run: "forLinks (Suc n) link body cur (h, u) = Some (r, (h', u'))"
      and nb: "\<not> B u" and nl: "\<not> L u"
    show "\<not> L u' \<and> (B u' \<longrightarrow> r = Some ErrBreak)"
    proof (cases cur)
      case None
      with run nb nl show ?thesis by simp
    next
      case (Some node)
      with run obtain r1 h1 u1 where b: "body node (h, u) = Some (r1, (h1, u1))"
        by (auto split: option.splits)
      from propagatesD [OF assms b nb nl] have l1: "\<not> L u1" and b1: "B u1 \<longrightarrow> r1 = Some ErrBreak"
        by auto
      show ?thesis
      proof (cases "r1 = Some ErrBreak")
        case True
        with run Some b l1 show ?thesis by simp
      next
        case False
        with b1 have nb1: "\<not> B u1" by blast
        from run Some b False
        have "forLinks n link body (link (cell h1 node)) (h1, u1) = Some (r, (h', u'))" by simp
        from propagatesD [OF Suc.IH this nb1 l1] show ?thesis .
      qed
    qed
  qed
qed

lemma propagates_anyForEach:
  assumes "\<And>x. propagates B L (v x)"
  shows "propagates B L (anyForEach n p v)"
proof (induction n arbitrary: p)
  case 0
  show ?case by (rule propagatesI) simp
next
  case (Suc n)
  show ?case
  proof (rule propagatesI)
    fix h u r h' u'
    assume run: "anyForEach (Suc n) p v (h, u) = Some (r, (h', u'))"
      and nb: "\<not> B u" and nl: "\<not> L u"
    from run obtain r1 h1 u1 where b: "v p (h, u) = Some (r1, (h1, u1))"
      by (auto split: option.splits)
    from propagatesD [OF assms b nb nl] have l1: "\<not> L u1" and b1: "B u1 \<longrightarrow> r1 = Some ErrBreak"
      by auto
    show "\<not> L u' \<and> (B u' \<longrightarrow> r = Some ErrBreak)"
    proof (cases "r1 = None \<or> r1 = Some ErrBreak")
      case True
      with run b l1 b1 show ?thesis by auto
    next
      case False
      with b1 have nb1: "\<not> B u1" by blast
      from run b False
      have "forLinks n NextSibling (\<lambda>node. anyForEach n node v) (FirstChild (cell h1 p)) (h1, u1)
          = Some (r, (h', u'))" by simp
      moreover have "propagates B L (forLinks n NextSibling (\<lambda>node. anyForEach n node v)
          (FirstChild (cell h1 p)))"
        by (rule propagates_forLinks) (rule Suc.IH)
      ultimately show ?thesis using nb1 l1 by (rule_tac propagatesD)
    qed
  qed
qed

lemma propagates_childLevelForEach:
  assumes "\<And>x. propagates B L (v x)"
  shows "propagates B L (childLevelForEach n p level v)"
proof (induction n arbitrary: p level)
  case 0
  show ?case by (rule propagatesI) simp
next
  case (Suc n)
  show ?case
  proof (cases "level = 0")
    case True
    then have "childLevelForEach (Suc n) p level v = v p" by (auto simp: fun_eq_iff)
    with assms show ?thesis by simp
  next
    case False
    show ?thesis
    proof (rule propagatesI)
      fix h u r h' u'
      assume run: "childLevelForEach (Suc n) p level v (h, u) = Some (r, (h', u'))"
        and nb: "\<not> B u" and nl: "\<not> L u"
      with False have "forLinks n NextSibling (\<lambda>node. childLevelForEach n node (level - 1) v)
          (FirstChild (cell h p)) (h, u) = Some (r, (h', u'))" by simp
      moreover have "propagates B L (forLinks n NextSibling
          (\<lambda>node. childLevelForEach n node (level - 1) v) (FirstChild (cell h p)))"
        by (rule propagates_forLinks) (rule Suc.IH)
      ultimately show "\<not> L u' \<and> (B u' \<longrightarrow> r = Some ErrBreak)"
        using nb nl by (rule_tac propagatesD)
    qed
  qed
qed

lemma propagates_parentLevelForEach:
  assumes "\<And>x. propagates B L (v x)"
  shows "propagates B L (parentLevelForEach p level v)"
proof (induction "nat (- level)" arbitrary: p level)
  case 0
  then have "parentLevelForEach p level v = v p"
    by (auto simp: fun_eq_iff parentLevelForEach.simps)
  with assms show ?case by simp
next
  case (Suc k)
  then have neg: "level < 0" and k: "k = nat (- (level + 1))" by auto
  show ?case
  proof (rule propagatesI)
    fix h u r h' u'
    assume run: "parentLevelForEach p level v (h, u) = Some (r, (h', u'))"
      and nb: "\<not> B u" and nl: "\<not> L u"
    show "\<not> L u' \<and> (B u' \<longrightarrow> r = Some ErrBreak)"
    proof (cases "Parent (cell h p)")
      case None
      with run neg nb nl show ?thesis by (simp add: parentLevelForEach.simps [of p])
    next
      case (Some q)
      with run neg have "parentLevelForEach q (level + 1) v (h, u) = Some (r, (h', u'))"
        by (simp add: parentLevelForEach.simps [of p])
      from propagatesD [OF Suc(1) [OF k] this nb nl] show ?thesis .
    qed
  qed
qed

lemma propagates_siblingForEach:
  assumes "\<And>x. propagates B L (v x)"
  shows "propagates B L (siblingForEach p delta v)"
proof (induction "nat \<bar>delta\<bar>" arbitrary: p delta)
  case 0
  then have "siblingForEach p delta v = v p"
    by (auto simp: fun_eq_iff siblingForEach.simps)
  with assms show ?case by simp
next
  case (Suc k)
  then have k: "delta > 0 \<Longrightarrow> k = nat \<bar>delta - 1\<bar>" "delta < 0 \<Longrightarrow> k = nat \<bar>delta + 1\<bar>"
    and nz: "delta \<noteq> 0" by auto
  show ?case
  proof (rule propagatesI)
    fix h u r h' u'
    assume run: "siblingForEach p delta v (h, u) = Some (r, (h', u'))"
      and nb: "\<not> B u" and nl: "\<not> L u"
    show "\<not> L u' \<and> (B u' \<longrightarrow> r = Some ErrBreak)"
    proof (cases "delta > 0")
      case True
      show ?thesis
      proof (cases "NextSibling (cell h p)")
        case None
        with run True nb nl show ?thesis by (simp add: siblingForEach.simps [of p])
      next
        case (Some q)
        with run True have "siblingForEach q (delta - 1) v (h, u) = Some (r, (h', u'))"
          by (simp add: siblingForEach.simps [of p])
        from propagatesD [OF Suc(1) [OF k(1) [OF True]] this nb nl] show ?thesis .
      qed
    next
      case False
      with nz have lt: "delta < 0" by simp
      show ?thesis
      proof (cases "PrevSibling (cell h p)")
        case None
        with run lt nb nl show ?thesis by (simp add: siblingForEach.simps [of p])
      next
        case (Some q)
        with run lt have "siblingForEach q (delta + 1) v (h, u) = Some (r, (h', u'))"
          by (simp add: siblingForEach.simps [of p])
        from propagatesD [OF Suc(1) [OF k(2) [OF lt]] this nb nl] show ?thesis .
      qed
    qed
  qed
qed

lemma propagates_prevSiblingsVisit:
  assumes "\<And>x. propagates B L (v x)"
  shows "propagates B L (prevSiblingsVisit n v x)"
proof (rule propagatesI)
  fix h u r h' u'
  assume "prevSiblingsVisit n v x (h, u) = Some (r, (h', u'))" and nb: "\<not> B u" and nl: "\<not> L u"
  then have "forLinks n PrevSibling v (PrevSibling (cell h x)) (h, u) = Some (r, (h', u'))"
    by (simp add: prevSiblingsVisit_def)
  moreover have "propagates B L (forLinks n PrevSibling v (PrevSibling (cell h x)))"
    by (rule propagates_forLinks) (rule assms)
  ultimately show "\<not> L u' \<and> (B u' \<longrightarrow> r = Some ErrBreak)"
    using nb nl by (rule_tac propagatesD)
qed

lemma propagates_nextSiblingsVisit:
  assumes "\<And>x. propagates B L (v x)"
  shows "propagates B L (nextSiblingsVisit n v x)"
proof (rule propagatesI)
  fix h u r h' u'
  assume "nextSiblingsVisit n v x (h, u) = Some (r, (h', u'))" and nb: "\<not> B u" and nl: "\<not> L u"
  then have "forLinks n NextSibling v (NextSibling (cell h x)) (h, u) = Some (r, (h', u'))"
    by (simp add: nextSiblingsVisit_def)
  moreover have "propagates B L (forLinks n NextSibling v (NextSibling (cell h x)))"
    by (rule propagates_forLinks) (rule assms)
  ultimately show "\<not> L u' \<and> (B u' \<longrightarrow> r = Some ErrBreak)"
    using nb nl by (rule_tac propagatesD)
qed

lemma propagates_firstChildVisit:
  "(\<And>x. propagates B L (v x)) \<Longrightarrow> propagates B L (firstChildVisit n nodeType v x)"
  by (rule propagatesI)
    (auto simp: firstChildVisit_def split: option.splits sum.splits dest: propagatesD)

lemma propagates_lastChildVisit:
  "(\<And>x. propagates B L (v x)) \<Longrightarrow> propagates B L (lastChildVisit n nodeType v x)"
  by (rule propagatesI)
    (auto simp: lastChildVisit_def split: option.splits sum.splits dest: propagatesD)

lemma propagates_matchVisit:
  "(\<And>x. propagates B L (v x)) \<Longrightarrow> propagates B L (matchVisit pred v x)"
  by (rule propagatesI) (auto simp: matchVisit_def split: if_splits dest: propagatesD)

lemma propagates_textVisit:
  "(\<And>x. propagates B L (v x)) \<Longrightarrow> propagates B L (textVisit n doReplace v x)"
  by (rule propagatesI)
    (auto simp: textVisit_def newNode_def Let_def split: option.splits if_splits dest: propagatesD)

lemma propagates_rangeNodes:
  assumes "\<And>x. propagates B L (v x)"
  shows "rangeNodes nodes v (h, u) = Some (h', u') \<Longrightarrow> \<not> B u \<Longrightarrow> \<not> L u \<Longrightarrow> \<not> L u'"
proof (induction nodes arbitrary: h u)
  case Nil
  then show ?case by simp
next
  case (Cons x xs)
  from Cons.prems(1) obtain r h1 u1 where b: "v x (h, u) = Some (r, (h1, u1))"
    by (auto split: option.splits)
  from propagatesD [OF assms b Cons.prems(2,3)]
  have l1: "\<not> L u1" and b1: "B u1 \<longrightarrow> r = Some ErrBreak" by auto
  show ?case
  proof (cases "r = Some ErrBreak")
    case True
    with Cons.prems(1) b l1 show ?thesis by simp
  next
    case False
    with b1 have "\<not> B u1" by blast
    moreover from Cons.prems(1) b False have "rangeNodes xs v (h1, u1) = Some (h', u')" by simp
    ultimately show ?thesis using Cons.IH l1 by blast
  qed
qed

lemma propagates_ForEach:
  assumes "\<And>x. propagates B L (v x)" and "anyFree d"
    and "ForEach n d v (h, u) = Some (Inr (h', u'))" and "\<not> B u" and "\<not> L u"
  shows "\<not> L u'"
  using assms
proof (induction d arbitrary: v)
  case nilEnum
  then show ?case by simp
next
  case (oneNode p)
  then show ?case by (auto split: option.splits dest: propagatesD)
next
  case (fixNodes nodes)
  then have "rangeNodes nodes v (h, u) = Some (h', u')" by auto
  from propagates_rangeNodes [OF fixNodes(1) this fixNodes(4,5)] show ?case .
next
  case (anyNodes d)
  then show ?case by simp
next
  case (childLevelNodes d level)
  show ?case
    using childLevelNodes.IH [of "\<lambda>node. childLevelForEach n node level v"] childLevelNodes.prems
    by (simp add: propagates_childLevelForEach)
next
  case (parentLevelNodes d level)
  show ?case
    using parentLevelNodes.IH [of "\<lambda>node. parentLevelForEach node level v"] parentLevelNodes.prems
    by (simp add: propagates_parentLevelForEach)
next
  case (siblingNodes d delta)
  show ?case
    using siblingNodes.IH [of "\<lambda>node. siblingForEach node delta v"] siblingNodes.prems
    by (simp add: propagates_siblingForEach)
next
  case (prevSiblingNodes d)
  show ?case
    using prevSiblingNodes.IH [of "prevSiblingsVisit n v"] prevSiblingNodes.prems
    by (simp add: propagates_prevSiblingsVisit)
next
  case (nextSiblingNodes d)
  show ?case
    using nextSiblingNodes.IH [of "nextSiblingsVisit n v"] nextSiblingNodes.prems
    by (simp add: propagates_nextSiblingsVisit)
next
  case (firstChildNodes d nodeType)
  show ?case
    using firstChildNodes.IH [of "firstChildVisit n nodeType v"] firstChildNodes.prems
    by (simp add: propagates_firstChildVisit)
next
  case (lastChildNodes d nodeType)
  show ?case
    using lastChildNodes.IH [of "lastChildVisit n nodeType v"] lastChildNodes.prems
    by (simp add: propagates_lastChildVisit)
next
  case (matchedNodes d pred)
  show ?case
    using matchedNodes.IH [of "matchVisit pred v"] matchedNodes.prems
    by (simp add: propagates_matchVisit)
next
  case (textNodes d doReplace)
  show ?case
    using textNodes.IH [of "textVisit n doReplace v"] textNodes.prems
    by (simp add: propagates_textVisit)
qed

section \<open>What a node set offers\<close>

lemma drive_by_offer:
  assumes off: "ForEach n d spy (h, []) = Some (Inr (h, map (\<lambda>x. (x, h)) xs))"
    and v: "\<And>x s. x \<in> set xs \<Longrightarrow> v x (h, s) = Some (None, (h, g x s))"
  shows "ForEach n d v (h, s0) = Some (Inr (h, fold g xs s0))"
proof -
  let ?Q = "\<lambda>seen s. s = fold g (map fst seen) s0"
  let ?A = "\<lambda>seen. \<exists>e\<in>set seen. snd e \<noteq> h \<or> fst e \<notin> set xs"
  have s: "sim ?Q ?A (spy x) (v x)" for x
    by (rule simI) (auto simp: spy_def v)
  from sim_ForEach [of ?Q ?A spy v, OF s off]
  show ?thesis by (auto simp: comp_def)
qed

lemma fold_append:
  "fold (\<lambda>x acc. acc @ g x) xs acc = acc @ concat (map g xs)"
  by (induction xs arbitrary: acc) auto

lemma fold_append2:
  "fold (\<lambda>x s. (fst s @ g x, snd s @ g' x)) xs (a, b)
     = (a @ concat (map g xs), b @ concat (map g' xs))"
  by (induction xs arbitrary: a b) auto

lemma range_spy:
  "rangeNodes xs spy (h, seen) = Some (h, seen @ map (\<lambda>x. (x, h)) xs)"
  by (induction xs arbitrary: seen) (simp_all add: spy_def)

lemma offers_Nodes: "offers n (Nodes xs) h xs"
  by (simp add: offers_def Nodes_def range_spy)

section \<open>C1: text-only extraction\<close>

text \<open>
  C1. \<^verbatim>\<open>ExactText\<close> is to return the text of a Text node and to fail with
  \<^verbatim>\<open>ErrNotTextNode\<close> on every other node. The test of the source is the other way
  round: on the Text node 6 (payload A) it fails with \<^verbatim>\<open>ErrNotTextNode\<close>, and on the
  element 4 it returns the tag name with no error.
\<close>

theorem ExactText_inverted:
  "ExactText docHeap 6 = ([], Some ErrNotTextNode) \<and> ExactText docHeap 4 = (''div'', None)"
  by (simp add: ExactText_def run_simps)

section \<open>C2: the deep search\<close>

lemma logged_match:
  "logged (matchVisit pred collectVisit) x (h, seen, acc) =
     (if pred h x then Some (None, (h, seen @ [x], acc @ [x]))
      else Some (Some ErrNotFound, (h, seen @ [x], acc)))"
  by (simp add: logged_def matchVisit_def collectVisit_def)

lemma any_chain:
  assumes ih: "\<And>t c seen acc. t \<in> set ts \<Longrightarrow> shaped h c t \<Longrightarrow>
      anyForEach n c (logged (matchVisit pred collectVisit)) (h, seen, acc)
        = Some (None, (h, seen @ offered (pred h) t, acc @ outermost (pred h) t))"
    and "chained h cur ts" and "length ts < m"
  shows "forLinks m NextSibling (\<lambda>node. anyForEach n node (logged (matchVisit pred collectVisit)))
           cur (h, seen, acc)
         = Some (None, (h, seen @ concat (map (offered (pred h)) ts),
                           acc @ concat (map (outermost (pred h)) ts)))"
  using assms
proof (induction ts arbitrary: cur m seen acc)
  case Nil
  then obtain m' where "m = Suc m'" by (cases m) auto
  with Nil show ?case by (cases cur) auto
next
  case (Cons t rest)
  then obtain m' where m: "m = Suc m'" by (cases m) auto
  obtain b ts' where t: "t = Tree b ts'" by (cases t)
  from Cons.prems(2) t obtain c where cur: "cur = Some c"
    and sh: "shaped h c t" and ch: "chained h (NextSibling (cell h c)) rest"
    by (cases cur) auto
  have one: "anyForEach n c (logged (matchVisit pred collectVisit)) (h, seen, acc)
      = Some (None, (h, seen @ offered (pred h) t, acc @ outermost (pred h) t))"
    by (rule Cons.prems(1)) (simp_all add: sh)
  have "forLinks m' NextSibling (\<lambda>node. anyForEach n node (logged (matchVisit pred collectVisit)))
          (NextSibling (cell h c)) (h, seen @ offered (pred h) t, acc @ outermost (pred h) t)
        = Some (None, (h, (seen @ offered (pred h) t) @ concat (map (offered (pred h)) rest),
                          (acc @ outermost (pred h) t) @ concat (map (outermost (pred h)) rest)))"
    using Cons.prems(3) m by (intro Cons.IH Cons.prems(1) ch) auto
  with one cur m show ?case by simp
qed

lemma any_tree:
  "shaped h a t \<Longrightarrow> need t \<le> n \<Longrightarrow>
     anyForEach n a (logged (matchVisit pred collectVisit)) (h, seen, acc)
       = Some (None, (h, seen @ offered (pred h) t, acc @ outermost (pred h) t))"
proof (induction t arbitrary: a n seen acc)
  case (Tree b ts)
  then obtain n' where n: "n = Suc n'" by (cases n) auto
  from Tree.prems have ab: "a = b" and ch: "chained h (FirstChild (cell h a)) ts" by auto
  show ?case
  proof (cases "pred h a")
    case True
    then show ?thesis using n ab by (simp add: logged_match)
  next
    case False
    have "forLinks n' NextSibling (\<lambda>node. anyForEach n' node (logged (matchVisit pred collectVisit)))
            (FirstChild (cell h a)) (h, seen @ [a], acc)
          = Some (None, (h, (seen @ [a]) @ concat (map (offered (pred h)) ts),
                            acc @ concat (map (outermost (pred h)) ts)))"
    proof (rule any_chain [OF _ ch])
      show "length ts < n'" using Tree.prems(2) n by simp
    next
      fix t c seen acc
      assume t: "t \<in> set ts" and sh: "shaped h c t"
      have "need t \<le> sum_list (map need ts)" using t by (simp add: member_le_sum_list)
      then have "need t \<le> n'" using Tree.prems(2) n by simp
      from Tree.IH [OF t sh this]
      show "anyForEach n' c (logged (matchVisit pred collectVisit)) (h, seen, acc)
          = Some (None, (h, seen @ offered (pred h) t, acc @ outermost (pred h) t))" .
    qed
    with False n ab show ?thesis by (simp add: logged_match)
  qed
qed


lemma walk_chain:
  assumes ih: "\<And>t c s. t \<in> set ts \<Longrightarrow> shaped h c t \<Longrightarrow>
      anyForEach n c (logged visit) (h, s)
        = Some (if fst (walk f t s) then Some ErrBreak else None, (h, snd (walk f t s)))"
    and "chained h cur ts" and "length ts < m"
  shows "forLinks m NextSibling (\<lambda>node. anyForEach n node (logged visit)) cur (h, s)
         = Some (if fst (walks f ts s) then Some ErrBreak else None, (h, snd (walks f ts s)))"
  using assms
proof (induction ts arbitrary: cur m s)
  case Nil
  then obtain m' where "m = Suc m'" by (cases m) auto
  with Nil show ?case by (cases cur) auto
next
  case (Cons t rest)
  then obtain m' where m: "m = Suc m'" by (cases m) auto
  obtain b ts' where t: "t = Tree b ts'" by (cases t)
  from Cons.prems(2) t obtain c where cur: "cur = Some c"
    and sh: "shaped h c t" and ch: "chained h (NextSibling (cell h c)) rest"
    by (cases cur) auto
  obtain br s' where w: "walk f t s = (br, s')" by (cases "walk f t s")
  have one: "anyForEach n c (logged visit) (h, s)
      = Some (if br then Some ErrBreak else None, (h, s'))"
    using Cons.prems(1) [of t c s] sh w by simp
  show ?case
  proof (cases br)
    case True
    with one cur m w show ?thesis by simp
  next
    case False
    have "forLinks m' NextSibling (\<lambda>node. anyForEach n node (logged visit))
          (NextSibling (cell h c)) (h, s')
        = Some (if fst (walks f rest s') then Some ErrBreak else None, (h, snd (walks f rest s')))"
      using Cons.prems(3) m by (intro Cons.IH Cons.prems(1) ch) auto
    with one cur m w False show ?thesis by simp
  qed
qed

lemma walk_tree:
  assumes v: "\<And>x u. visit x (h, u) = Some (fst (f x u), (h, snd (f x u)))"
  shows "shaped h a t \<Longrightarrow> need t \<le> n \<Longrightarrow>
     anyForEach n a (logged visit) (h, s)
       = Some (if fst (walk f t s) then Some ErrBreak else None, (h, snd (walk f t s)))"
proof (induction t arbitrary: a n s)
  case (Tree b ts)
  then obtain n' where n: "n = Suc n'" by (cases n) auto
  from Tree.prems have ab: "a = b" and ch: "chained h (FirstChild (cell h a)) ts" by auto
  obtain seen u where s: "s = (seen, u)" by (cases s)
  obtain r u' where fa: "f a u = (r, u')" by (cases "f a u")
  have lg: "logged visit b (h, seen, u) = Some (r, (h, seen @ [b], u'))"
    using fa ab by (simp add: logged_def v)
  show ?case
  proof (cases "r = None \<or> r = Some ErrBreak")
    case True
    then show ?thesis using n ab s fa by (auto simp: lg)
  next
    case False
    have "forLinks n' NextSibling (\<lambda>node. anyForEach n' node (logged visit))
            (FirstChild (cell h a)) (h, seen @ [a], u')
          = Some (if fst (walks f ts (seen @ [a], u')) then Some ErrBreak else None,
                  (h, snd (walks f ts (seen @ [a], u'))))"
    proof (rule walk_chain [OF _ ch])
      show "length ts < n'" using Tree.prems(2) n by simp
    next
      fix t c s
      assume t: "t \<in> set ts" and sh: "shaped h c t"
      have "need t \<le> sum_list (map need ts)" using t by (simp add: member_le_sum_list)
      then have "need t \<le> n'" using Tree.prems(2) n by simp
      from Tree.IH [OF t sh this]
      show "anyForEach n' c (logged visit) (h, s)
          = Some (if fst (walk f t s) then Some ErrBreak else None, (h, snd (walk f t s)))" .
    qed
    with False n ab s fa show ?thesis by (auto simp: lg)
  qed
qed

lemma fold_walks:
  "\<not> fst (walks f (butlast ts) s) \<Longrightarrow>
     fold (\<lambda>t s. snd (walk f t s)) ts s = snd (walks f ts s)"
proof (induction ts arbitrary: s)
  case Nil
  then show ?case by simp
next
  case (Cons t rest)
  obtain br s' where w: "walk f t s = (br, s')" by (cases "walk f t s")
  show ?case
  proof (cases "rest = []")
    case True
    with w show ?thesis by simp
  next
    case False
    with Cons.prems w have nb: "\<not> br" and r: "\<not> fst (walks f (butlast rest) s')"
      by (auto split: if_splits)
    from Cons.IH [OF r] w nb show ?thesis by simp
  qed
qed

text \<open>
  C2, as stated, for the div element 4 of the sample document: \<^verbatim>\<open>Any\<close> filtered to
  Element nodes and collected gives the div alone. The collector answers nil for the
  div, and \<^verbatim>\<open>anyForEach\<close> returns at once on nil as it does on \<^verbatim>\<open>ErrBreak\<close>: the two
  paragraphs below the div are never visited.
\<close>

theorem Any_elements_counterexample:
  "NodeSet_Collect 10 (NodeSet_Match (NodeSet_Any (Nodes [4])) isElement) docHeap
     = Some (Inr (([4], None), docHeap)) \<and> [4] \<noteq> [4, 5, 7::addr]"
  by (simp add: run_simps)

text \<open>
  C2, amended, with enough fuel, for a node set that offers the nodes \<open>xs\<close> in the
  store (as \<^verbatim>\<open>Nodes\<close> of a list does), each of them the root of a tree \<open>tr x\<close> in the
  store. Driven by a visitor that leaves the store alone, \<^verbatim>\<open>Any\<close> hands each input
  node to the visitor first and goes on to the children, left to right and
  recursively, only below a node for which the answer was neither nil nor
  \<^verbatim>\<open>ErrBreak\<close>; an answer \<^verbatim>\<open>ErrBreak\<close> ends the walk. This is \<open>walks\<close> over the
  trees of the input nodes, and it is stated for the drives in which \<^verbatim>\<open>ErrBreak\<close> is
  not answered before the tree of the last input node. In particular with a filter
  \<^verbatim>\<open>Match(pred)\<close> after \<^verbatim>\<open>Any\<close>: the nodes offered to the filter are the nodes of
  each tree in pre-order, not going below a node that satisfies \<open>pred\<close>; and the nodes
  collected are those that satisfy \<open>pred\<close> and have no proper ancestor in their tree
  that does, in document order.
\<close>

theorem Any_Match_outermost:
  assumes "offers n p h xs" and "\<forall>x\<in>set xs. shaped h x (tr x) \<and> need (tr x) \<le> n"
  shows "((\<forall>x u. visit x (h, u) = Some (fst (f x u), (h, snd (f x u))))
            \<and> \<not> fst (walks f (butlast (map tr xs)) ([], u)) \<longrightarrow>
          ForEach n (NodeSet_Data (NodeSet_Any p)) (logged visit) (h, [], u)
            = Some (Inr (h, snd (walks f (map tr xs) ([], u)))))
       \<and> ForEach n (NodeSet_Data (NodeSet_Any p)) (logged (matchVisit pred collectVisit)) (h, [], [])
           = Some (Inr (h, concat (map (\<lambda>x. offered (pred h) (tr x)) xs),
                           concat (map (\<lambda>x. outermost (pred h) (tr x)) xs)))
       \<and> NodeSet_Collect n (NodeSet_Match (NodeSet_Any p) pred) h
           = Some (Inr ((concat (map (\<lambda>x. outermost (pred h) (tr x)) xs), None), h))
       \<and> offers n (Nodes ys) h ys"
proof -
  from assms(1) have e: "NodeSet_Err p = None"
    and off: "ForEach n (NodeSet_Data p) spy (h, []) = Some (Inr (h, map (\<lambda>x. (x, h)) xs))"
    by (simp_all add: offers_def)
  have d: "NodeSet_Data (NodeSet_Any p) = anyNodes (NodeSet_Data p)"
    using e by (simp add: NodeSet_Any_def)
  have general: "ForEach n (NodeSet_Data (NodeSet_Any p)) (logged visit) (h, [], u)
            = Some (Inr (h, snd (walks f (map tr xs) ([], u))))"
    if v: "\<forall>x u. visit x (h, u) = Some (fst (f x u), (h, snd (f x u)))"
      and nb: "\<not> fst (walks f (butlast (map tr xs)) ([], u))"
  proof -
    have step: "anyVisit n (logged visit) x (h, s) = Some (None, (h, snd (walk f (tr x) s)))"
      if "x \<in> set xs" for x s
    proof -
      from that assms(2) have "shaped h x (tr x)" "need (tr x) \<le> n" by auto
      then have "anyForEach n x (logged visit) (h, s)
          = Some (if fst (walk f (tr x) s) then Some ErrBreak else None, (h, snd (walk f (tr x) s)))"
        using v by (intro walk_tree) auto
      then show ?thesis by (simp add: anyVisit_def)
    qed
    have "ForEach n (NodeSet_Data p) (anyVisit n (logged visit)) (h, [], u)
        = Some (Inr (h, fold (\<lambda>x s. snd (walk f (tr x) s)) xs ([], u)))"
      by (rule drive_by_offer [OF off]) (rule step)
    moreover have "fold (\<lambda>x s. snd (walk f (tr x) s)) xs ([], u)
        = fold (\<lambda>t s. snd (walk f t s)) (map tr xs) ([], u)"
      by (simp add: fold_map comp_def)
    ultimately show ?thesis using fold_walks [OF nb] by (simp add: d)
  qed
  have step: "anyVisit n (logged (matchVisit pred collectVisit)) x (h, s)
      = Some (None, (h, fst s @ offered (pred h) (tr x), snd s @ outermost (pred h) (tr x)))"
    if "x \<in> set xs" for x s
  proof -
    from that assms(2) have "shaped h x (tr x)" "need (tr x) \<le> n" by auto
    from any_tree [OF this, of pred "fst s" "snd s"] show ?thesis by (simp add: anyVisit_def)
  qed
  have "ForEach n (NodeSet_Data p) (anyVisit n (logged (matchVisit pred collectVisit))) (h, [], [])
      = Some (Inr (h, fold (\<lambda>x s. (fst s @ offered (pred h) (tr x), snd s @ outermost (pred h) (tr x)))
                        xs ([], [])))"
    by (rule drive_by_offer [OF off]) (rule step)
  then have run: "ForEach n (NodeSet_Data (NodeSet_Any p)) (logged (matchVisit pred collectVisit)) (h, [], [])
      = Some (Inr (h, concat (map (\<lambda>x. offered (pred h) (tr x)) xs),
                      concat (map (\<lambda>x. outermost (pred h) (tr x)) xs)))"
    by (simp add: d fold_append2)
  from sim_ForEach [OF sim_logged_erase run]
  have "ForEach n (NodeSet_Data (NodeSet_Any p)) (matchVisit pred collectVisit) (h, [])
      = Some (Inr (h, concat (map (\<lambda>x. outermost (pred h) (tr x)) xs)))"
    by simp
  then have "NodeSet_Collect n (NodeSet_Match (NodeSet_Any p) pred) h
      = Some (Inr ((concat (map (\<lambda>x. outermost (pred h) (tr x)) xs), None), h))"
    using e by (simp add: NodeSet_Collect_def NodeSet_Match_def NodeSet_Any_def)
  with general run offers_Nodes [of n ys h] show ?thesis by blast
qed

theorem Any_Match_outermost_witness:
  "offers 14 (Nodes [7, 4]) docHeap [7, 4]
   \<and> shaped docHeap 7 (Tree 7 [Tree 8 []])
   \<and> shaped docHeap 4 (Tree 4 [Tree 5 [Tree 6 []], Tree 7 [Tree 8 []]])
   \<and> need (Tree 4 [Tree 5 [Tree 6 []], Tree 7 [Tree 8 []]]) \<le> 14
   \<and> \<not> fst (walks (\<lambda>x u. (if x = 6 then Some ErrBreak else Some ErrNotFound, u))
               [Tree 7 [Tree 8 []]] ([], ()))
   \<and> ForEach 14 (NodeSet_Data (NodeSet_Any (Nodes [7, 4])))
        (logged (\<lambda>x s. Some (if x = 6 then Some ErrBreak else Some ErrNotFound, s)))
        (docHeap, [], ())
        = Some (Inr (docHeap, [7, 8, 4, 5, 6], ()))
   \<and> ForEach 14 (NodeSet_Data (NodeSet_Any (Nodes [7, 4]))) (logged (matchVisit isText collectVisit))
        (docHeap, [], [])
        = Some (Inr (docHeap, [7, 8, 4, 5, 6, 7, 8], [8, 6, 8]))
   \<and> NodeSet_Collect 14 (NodeSet_Match (NodeSet_Any (Nodes [7, 4])) isText) docHeap
        = Some (Inr (([8, 6, 8], None), docHeap))"
  using Any_Match_outermost [where h = docHeap and p = "Nodes [7, 4]" and xs = "[7, 4]" and n = 14
      and tr = "\<lambda>x. if x = 7 then Tree 7 [Tree 8 []]
                      else Tree 4 [Tree 5 [Tree 6 []], Tree 7 [Tree 8 []]]"
      and visit = "\<lambda>x s. Some (if x = 6 then Some ErrBreak else Some ErrNotFound, s)"
      and f = "\<lambda>x u. (if x = 6 then Some ErrBreak else Some ErrNotFound, u)"
      and u = "()" and pred = isText]
  by (simp add: docHeap_cell mk_sel isText_def offers_Nodes)

section \<open>C3: down by a level and up again\<close>

lemma climb_Some:
  "ancestor h k c = Some x \<Longrightarrow> parentLevelForEach c (- int k) v (h, u) = v x (h, u)"
proof (induction k arbitrary: c)
  case 0
  then show ?case by (simp add: parentLevelForEach.simps)
next
  case (Suc k)
  then obtain q where q: "Parent (cell h c) = Some q" and a: "ancestor h k q = Some x"
    by (auto split: option.splits)
  have "parentLevelForEach c (- int (Suc k)) v (h, u) = parentLevelForEach q (- int k) v (h, u)"
    by (subst parentLevelForEach.simps) (simp add: q)
  with Suc.IH [OF a] show ?case by simp
qed

lemma siblings_back:
  assumes pb: "parentsBack h"
    and body: "\<And>c a0 r h' a0'. Parent (cell h c) = Some y \<Longrightarrow>
        childLevelForEach k c level collectVisit (h, a0) = Some (r, (h', a0')) \<Longrightarrow>
        r = None \<and> h' = h \<and>
        (\<exists>ds. a0' = a0 @ ds \<and>
           (\<forall>acc. childLevelForEach k c level w (h, acc)
                    = Some (None, (h, acc @ replicate (length ds) x))))"
    and cur: "\<And>c. cur = Some c \<Longrightarrow> Parent (cell h c) = Some y"
    and run: "forLinks n NextSibling (\<lambda>node. childLevelForEach k node level collectVisit) cur (h, a0)
        = Some (r, (h', a0'))"
  shows "r = None \<and> h' = h \<and>
        (\<exists>ds. a0' = a0 @ ds \<and>
           (\<forall>acc. forLinks n NextSibling (\<lambda>node. childLevelForEach k node level w) cur (h, acc)
                    = Some (None, (h, acc @ replicate (length ds) x))))"
  using cur run
proof (induction n arbitrary: cur a0)
  case 0
  then show ?case by simp
next
  case (Suc n)
  show ?case
  proof (cases cur)
    case None
    with Suc.prems show ?thesis by simp
  next
    case (Some c)
    with Suc.prems(1) have pc: "Parent (cell h c) = Some y" by simp
    from Suc.prems(2) Some obtain r1 h1 a1
      where b: "childLevelForEach k c level collectVisit (h, a0) = Some (r1, (h1, a1))"
      by (auto split: option.splits)
    from body [OF pc b] obtain ds1 where r1: "r1 = None" and h1: "h1 = h" and a1: "a1 = a0 @ ds1"
      and w1: "\<And>acc. childLevelForEach k c level w (h, acc)
                 = Some (None, (h, acc @ replicate (length ds1) x))"
      by blast
    from Suc.prems(2) Some b r1 h1
    have rest: "forLinks n NextSibling (\<lambda>node. childLevelForEach k node level collectVisit)
        (NextSibling (cell h c)) (h, a1) = Some (r, (h', a0'))"
      by simp
    have nxt: "\<And>d. NextSibling (cell h c) = Some d \<Longrightarrow> Parent (cell h d) = Some y"
      using pb pc by (auto simp: parentsBack_def)
    from Suc.IH [OF nxt rest] obtain ds2 where r: "r = None" and h': "h' = h"
      and a0': "a0' = a1 @ ds2"
      and w2: "\<And>acc. forLinks n NextSibling (\<lambda>node. childLevelForEach k node level w)
                 (NextSibling (cell h c)) (h, acc) = Some (None, (h, acc @ replicate (length ds2) x))"
      by blast
    have "a0' = a0 @ (ds1 @ ds2)" using a0' a1 by simp
    moreover have "forLinks (Suc n) NextSibling (\<lambda>node. childLevelForEach k node level w) cur (h, acc)
        = Some (None, (h, acc @ replicate (length (ds1 @ ds2)) x))" for acc
      using Some w1 w2 by (simp add: replicate_add)
    ultimately show ?thesis using r h' by blast
  qed
qed

lemma level_back:
  assumes pb: "parentsBack h"
  shows "ancestor h j y = Some x \<Longrightarrow>
     childLevelForEach n y (int m) collectVisit (h, a0) = Some (r, (h', a0')) \<Longrightarrow>
     r = None \<and> h' = h \<and>
     (\<exists>ds. a0' = a0 @ ds \<and>
        (\<forall>acc. childLevelForEach n y (int m)
                   (\<lambda>c. parentLevelForEach c (- int (j + m)) collectVisit) (h, acc)
                 = Some (None, (h, acc @ replicate (length ds) x))))"
proof (induction n arbitrary: y j m a0 r h' a0')
  case 0
  then show ?case by simp
next
  case (Suc n)
  show ?case
  proof (cases m)
    case 0
    with Suc.prems have "r = None" "h' = h" "a0' = a0 @ [y]"
      by (auto simp: collectVisit_def)
    moreover have "childLevelForEach (Suc n) y (int m)
          (\<lambda>c. parentLevelForEach c (- int (j + m)) collectVisit) (h, acc)
        = Some (None, (h, acc @ replicate (length [y]) x))" for acc
      using 0 climb_Some [OF Suc.prems(1), of collectVisit acc] by (simp add: collectVisit_def)
    ultimately show ?thesis by blast
  next
    case (Suc m')
    let ?w = "\<lambda>c. parentLevelForEach c (- int (j + m)) collectVisit"
    have run: "forLinks n NextSibling (\<lambda>node. childLevelForEach n node (int m') collectVisit)
        (FirstChild (cell h y)) (h, a0) = Some (r, (h', a0'))"
      using Suc.prems(2) Suc by simp
    have body: "r = None \<and> h' = h \<and>
        (\<exists>ds. a0' = a0 @ ds \<and>
           (\<forall>acc. childLevelForEach n c (int m') ?w (h, acc)
                    = Some (None, (h, acc @ replicate (length ds) x))))"
      if pc: "Parent (cell h c) = Some y"
        and b: "childLevelForEach n c (int m') collectVisit (h, a0) = Some (r, (h', a0'))"
      for c a0 r h' a0'
    proof -
      have "ancestor h (Suc j) c = Some x" using pc Suc.prems(1) by simp
      from Suc.IH [OF this b] show ?thesis using Suc by simp
    qed
    have cur: "\<And>c. FirstChild (cell h y) = Some c \<Longrightarrow> Parent (cell h c) = Some y"
      using pb by (auto simp: parentsBack_def)
    from siblings_back [OF pb body cur run] show ?thesis
      using Suc by simp
  qed
qed

lemma level_chain:
  assumes ih: "\<And>t c acc. t \<in> set ts \<Longrightarrow> shaped h c t \<Longrightarrow>
      childLevelForEach n c level collectVisit (h, acc) = Some (None, (h, acc @ f t))"
    and "chained h cur ts" and "length ts < m"
  shows "forLinks m NextSibling (\<lambda>node. childLevelForEach n node level collectVisit) cur (h, acc)
         = Some (None, (h, acc @ concat (map f ts)))"
  using assms
proof (induction ts arbitrary: cur m acc)
  case Nil
  then obtain m' where "m = Suc m'" by (cases m) auto
  with Nil show ?case by (cases cur) auto
next
  case (Cons t rest)
  then obtain m' where m: "m = Suc m'" by (cases m) auto
  obtain b ts' where t: "t = Tree b ts'" by (cases t)
  from Cons.prems(2) t obtain c where cur: "cur = Some c"
    and sh: "shaped h c t" and ch: "chained h (NextSibling (cell h c)) rest"
    by (cases cur) auto
  have one: "childLevelForEach n c level collectVisit (h, acc) = Some (None, (h, acc @ f t))"
    by (rule Cons.prems(1)) (simp_all add: sh)
  have "forLinks m' NextSibling (\<lambda>node. childLevelForEach n node level collectVisit)
          (NextSibling (cell h c)) (h, acc @ f t)
        = Some (None, (h, (acc @ f t) @ concat (map f rest)))"
    using Cons.prems(3) m by (intro Cons.IH Cons.prems(1) ch) auto
  with one cur m show ?case by simp
qed

lemma level_tree:
  "shaped h a t \<Longrightarrow> need t \<le> n \<Longrightarrow>
     childLevelForEach n a (int k) collectVisit (h, acc) = Some (None, (h, acc @ atDepth k t))"
proof (induction t arbitrary: a n k acc)
  case (Tree b ts)
  then obtain n' where n: "n = Suc n'" by (cases n) auto
  from Tree.prems have ab: "a = b" and ch: "chained h (FirstChild (cell h a)) ts" by auto
  show ?case
  proof (cases k)
    case 0
    then show ?thesis using n ab by (simp add: collectVisit_def)
  next
    case (Suc k')
    have "forLinks n' NextSibling (\<lambda>node. childLevelForEach n' node (int k') collectVisit)
            (FirstChild (cell h a)) (h, acc)
          = Some (None, (h, acc @ concat (map (atDepth k') ts)))"
    proof (rule level_chain [OF _ ch])
      show "length ts < n'" using Tree.prems(2) n by simp
    next
      fix t c acc
      assume t: "t \<in> set ts" and sh: "shaped h c t"
      have "need t \<le> sum_list (map need ts)" using t by (simp add: member_le_sum_list)
      then have "need t \<le> n'" using Tree.prems(2) n by simp
      from Tree.IH [OF t sh this]
      show "childLevelForEach n' c (int k') collectVisit (h, acc)
          = Some (None, (h, acc @ atDepth k' t))" .
    qed
    with Suc n show ?thesis by simp
  qed
qed

lemma down_up_node:
  assumes pb: "parentsBack h" and "shaped h x t" and "need t \<le> n"
  shows "childLevelForEach n x (int k) (\<lambda>c. parentLevelForEach c (- int k) collectVisit) (h, acc)
         = Some (None, (h, acc @ replicate (length (atDepth k t)) x))"
proof -
  have run: "childLevelForEach n x (int k) collectVisit (h, []) = Some (None, (h, [] @ atDepth k t))"
    using assms(2,3) by (rule level_tree)
  have "ancestor h 0 x = Some x" by simp
  from level_back [OF pb this run] show ?thesis by simp
qed

lemma up_down_node:
  assumes a: "ancestor h k x = Some (root t)" and sh: "shaped h (root t) t" and "need t \<le> n"
  shows "parentLevelForEach x (- int k) (\<lambda>c. childLevelForEach n c (int k) collectVisit) (h, acc)
         = Some (None, (h, acc @ atDepth k t))"
proof -
  have "parentLevelForEach x (- int k) (\<lambda>c. childLevelForEach n c (int k) collectVisit) (h, acc)
      = childLevelForEach n (root t) (int k) collectVisit (h, acc)"
    using climb_Some [OF a, of "\<lambda>c. childLevelForEach n c (int k) collectVisit" acc] by simp
  also have "\<dots> = Some (None, (h, acc @ atDepth k t))"
    using sh assms(3) by (rule level_tree)
  finally show ?thesis .
qed

lemma collect_by_offer:
  assumes off: "ForEach n d spy (h, []) = Some (Inr (h, map (\<lambda>x. (x, h)) xs))"
    and v: "\<And>x acc. x \<in> set xs \<Longrightarrow> v x (h, acc) = Some (None, (h, acc @ g x))"
  shows "ForEach n d v (h, []) = Some (Inr (h, concat (map g xs)))"
proof -
  have "ForEach n d v (h, []) = Some (Inr (h, fold (\<lambda>x acc. acc @ g x) xs []))"
    by (rule drive_by_offer [OF off]) (rule v)
  then show ?thesis by (simp add: fold_append)
qed

lemma once_each:
  "\<forall>x\<in>set xs. length (g x) = 1 \<Longrightarrow> concat (map (\<lambda>x. replicate (length (g x)) x) xs) = xs"
  by (induction xs) auto

lemma only_each:
  "\<forall>x\<in>set xs. g x = [x] \<Longrightarrow> concat (map g xs) = xs"
  by (induction xs) auto

lemma parentsBack_docHeap: "parentsBack docHeap"
  by (auto simp: parentsBack_def docHeap_def mk_def zeroNode_def split: if_splits)

text \<open>
  C3, as stated, for the div element 4 and the level 1, which is valid for it (it has
  children): \<^verbatim>\<open>ChildN(1)\<close> emits its two children and \<^verbatim>\<open>ChildN(-1)\<close> takes each
  of them back to it, so the node comes out twice.
\<close>

theorem ChildN_round_trip_counterexample:
  "NodeSet_Collect 10 (NodeSet_ChildN (NodeSet_ChildN (Nodes [4]) 1) (- 1)) docHeap
     = Some (Inr (([4, 4], None), docHeap)) \<and> [4, 4] \<noteq> [4::addr]"
  by (simp add: run_simps)

text \<open>
  C3, amended, in a store with consistent parent links, with enough fuel, for a level
  \<open>k > 0\<close> that a Go \<^verbatim>\<open>int\<close> holds, and for a node set that offers the nodes \<open>xs\<close> in the
  store (as \<^verbatim>\<open>Nodes\<close> of a list does): \<open>xs\<close> is what \<^verbatim>\<open>Collect\<close> returns for it. When
  every node \<open>x\<close> of \<open>xs\<close> is the root of a tree \<open>tdown x\<close> in the store, \<^verbatim>\<open>ChildN(k)\<close>
  collects the nodes at depth \<open>k\<close> of each tree, in document order, and \<^verbatim>\<open>ChildN(k)\<close>
  followed by \<^verbatim>\<open>ChildN(-k)\<close> collects every input node once for each node at depth
  \<open>k\<close> of its tree: a node with none is dropped, a node with several is repeated, and
  the result is the input sequence when every tree has exactly one node at depth \<open>k\<close>.
  When every node \<open>x\<close> of the input \<open>xs'\<close> has a \<open>k\<close>-th ancestor that is the root of a
  tree \<open>tup x\<close> in the store, \<^verbatim>\<open>ChildN(-k)\<close> followed by \<^verbatim>\<open>ChildN(k)\<close> collects for
  every input node all the nodes at depth \<open>k\<close> of that tree: the result is the input
  sequence when every input node is the only node at depth \<open>k\<close> of it. With the level
  0 both steps return the node set they are given.
\<close>

theorem ChildN_round_trip:
  assumes "parentsBack h" and "0 < k" and "int k < 2 ^ 63"
    and "offers n p h xs"
    and "\<forall>x\<in>set xs. shaped h x (tdown x) \<and> need (tdown x) \<le> n"
    and "offers n p' h xs'"
    and "\<forall>x\<in>set xs'. ancestor h k x = Some (root (tup x)) \<and> shaped h (root (tup x)) (tup x)
                      \<and> need (tup x) \<le> n"
  shows "NodeSet_Collect n p h = Some (Inr ((xs, None), h))
       \<and> NodeSet_Collect n (NodeSet_ChildN p (int k)) h
           = Some (Inr ((concat (map (\<lambda>x. atDepth k (tdown x)) xs), None), h))
       \<and> NodeSet_Collect n (NodeSet_ChildN (NodeSet_ChildN p (int k)) (negInt (int k))) h
           = Some (Inr ((concat (map (\<lambda>x. replicate (length (atDepth k (tdown x))) x) xs), None), h))
       \<and> ((\<forall>x\<in>set xs. length (atDepth k (tdown x)) = 1) \<longrightarrow>
            NodeSet_Collect n (NodeSet_ChildN (NodeSet_ChildN p (int k)) (negInt (int k))) h
              = Some (Inr ((xs, None), h)))
       \<and> NodeSet_Collect n (NodeSet_ChildN (NodeSet_ChildN p' (- int k)) (negInt (- int k))) h
           = Some (Inr ((concat (map (\<lambda>x. atDepth k (tup x)) xs'), None), h))
       \<and> ((\<forall>x\<in>set xs'. atDepth k (tup x) = [x]) \<longrightarrow>
            NodeSet_Collect n (NodeSet_ChildN (NodeSet_ChildN p' (- int k)) (negInt (- int k))) h
              = Some (Inr ((xs', None), h)))
       \<and> offers n (Nodes ys) h ys
       \<and> NodeSet_ChildN (NodeSet_ChildN q 0) (negInt 0) = q"
proof -
  have neg: "negInt (int k) = - int k" "negInt (- int k) = int k" "negInt 0 = 0"
    using assms(2,3) by (auto simp: negInt_def)
  from assms(4) have e: "NodeSet_Err p = None"
    and off: "ForEach n (NodeSet_Data p) spy (h, []) = Some (Inr (h, map (\<lambda>x. (x, h)) xs))"
    by (simp_all add: offers_def)
  from assms(6) have e': "NodeSet_Err p' = None"
    and off': "ForEach n (NodeSet_Data p') spy (h, []) = Some (Inr (h, map (\<lambda>x. (x, h)) xs'))"
    by (simp_all add: offers_def)
  have "ForEach n (NodeSet_Data p) collectVisit (h, []) = Some (Inr (h, concat (map (\<lambda>x. [x]) xs)))"
    by (rule collect_by_offer [OF off]) (simp add: collectVisit_def)
  then have c0: "NodeSet_Collect n p h = Some (Inr ((xs, None), h))"
    using e by (simp add: NodeSet_Collect_def)
  have "ForEach n (NodeSet_Data p) (\<lambda>node. childLevelForEach n node (int k) collectVisit) (h, [])
      = Some (Inr (h, concat (map (\<lambda>x. atDepth k (tdown x)) xs)))"
    by (rule collect_by_offer [OF off]) (use assms(5) in \<open>simp add: level_tree\<close>)
  then have down: "NodeSet_Collect n (NodeSet_ChildN p (int k)) h
           = Some (Inr ((concat (map (\<lambda>x. atDepth k (tdown x)) xs), None), h))"
    using e assms(2) by (simp add: NodeSet_Collect_def NodeSet_ChildN_def)
  have "ForEach n (NodeSet_Data p) (\<lambda>node. childLevelForEach n node (int k)
            (\<lambda>c. parentLevelForEach c (- int k) collectVisit)) (h, [])
      = Some (Inr (h, concat (map (\<lambda>x. replicate (length (atDepth k (tdown x))) x) xs)))"
    by (rule collect_by_offer [OF off]) (use assms(1,5) in \<open>simp add: down_up_node\<close>)
  then have du: "NodeSet_Collect n (NodeSet_ChildN (NodeSet_ChildN p (int k)) (negInt (int k))) h
           = Some (Inr ((concat (map (\<lambda>x. replicate (length (atDepth k (tdown x))) x) xs), None), h))"
    using e assms(2) by (simp add: neg NodeSet_Collect_def NodeSet_ChildN_def)
  have "ForEach n (NodeSet_Data p') (\<lambda>node. parentLevelForEach node (- int k)
            (\<lambda>c. childLevelForEach n c (int k) collectVisit)) (h, [])
      = Some (Inr (h, concat (map (\<lambda>x. atDepth k (tup x)) xs')))"
    by (rule collect_by_offer [OF off']) (use assms(7) in \<open>simp add: up_down_node\<close>)
  then have ud: "NodeSet_Collect n (NodeSet_ChildN (NodeSet_ChildN p' (- int k)) (negInt (- int k))) h
           = Some (Inr ((concat (map (\<lambda>x. atDepth k (tup x)) xs'), None), h))"
    using e' assms(2) by (simp add: neg NodeSet_Collect_def NodeSet_ChildN_def)
  have zero: "NodeSet_ChildN (NodeSet_ChildN q 0) (negInt 0) = q"
    by (simp add: neg NodeSet_ChildN_def)
  show ?thesis
    using c0 down du ud zero offers_Nodes [of n ys h]
      once_each [of xs "\<lambda>x. atDepth k (tdown x)"] only_each [of xs' "\<lambda>x. atDepth k (tup x)"]
    by simp
qed

theorem ChildN_round_trip_witness:
  "parentsBack docHeap \<and> (0::nat) < 1 \<and> int 1 < 2 ^ 63
   \<and> offers 20 (NodeSet_Child (Nodes [4])) docHeap [5, 7]
   \<and> shaped docHeap 5 (Tree 5 [Tree 6 []]) \<and> shaped docHeap 7 (Tree 7 [Tree 8 []])
   \<and> length (atDepth 1 (Tree 5 [Tree 6 []])) = 1 \<and> length (atDepth 1 (Tree 7 [Tree 8 []])) = 1
   \<and> offers 20 (Nodes [4, 5]) docHeap [4, 5]
   \<and> shaped docHeap 4 (Tree 4 [Tree 5 [Tree 6 []], Tree 7 [Tree 8 []]])
   \<and> offers 20 (Nodes [4]) docHeap [4]
   \<and> ancestor docHeap 1 4 = Some 3
   \<and> shaped docHeap 3 (Tree 3 [Tree 4 [Tree 5 [Tree 6 []], Tree 7 [Tree 8 []]]])
   \<and> atDepth 1 (Tree 3 [Tree 4 [Tree 5 [Tree 6 []], Tree 7 [Tree 8 []]]]) = [4]
   \<and> NodeSet_Collect 20 (NodeSet_Child (Nodes [4])) docHeap = Some (Inr (([5, 7], None), docHeap))
   \<and> NodeSet_Collect 20 (NodeSet_ChildN (NodeSet_Child (Nodes [4])) 1) docHeap
        = Some (Inr (([6, 8], None), docHeap))
   \<and> NodeSet_Collect 20 (NodeSet_ChildN (NodeSet_ChildN (NodeSet_Child (Nodes [4])) 1) (negInt 1))
        docHeap = Some (Inr (([5, 7], None), docHeap))
   \<and> NodeSet_Collect 20 (NodeSet_ChildN (Nodes [4, 5]) 1) docHeap
        = Some (Inr (([5, 7, 6], None), docHeap))
   \<and> NodeSet_Collect 20 (NodeSet_ChildN (NodeSet_ChildN (Nodes [4, 5]) 1) (negInt 1)) docHeap
        = Some (Inr (([4, 4, 5], None), docHeap))
   \<and> NodeSet_Collect 20 (NodeSet_ChildN (NodeSet_ChildN (Nodes [4]) (- 1)) (negInt (- 1))) docHeap
        = Some (Inr (([4], None), docHeap))"
  using ChildN_round_trip [OF parentsBack_docHeap, where k = 1 and n = 20
      and p = "NodeSet_Child (Nodes [4])" and xs = "[5, 7]"
      and tdown = "\<lambda>x. if x = 5 then Tree 5 [Tree 6 []] else Tree 7 [Tree 8 []]"
      and p' = "Nodes [4]" and xs' = "[4]"
      and tup = "\<lambda>x. Tree 3 [Tree 4 [Tree 5 [Tree 6 []], Tree 7 [Tree 8 []]]]"]
    ChildN_round_trip [OF parentsBack_docHeap, where k = 1 and n = 20
      and p = "Nodes [4, 5]" and xs = "[4, 5]"
      and tdown = "\<lambda>x. if x = 4 then Tree 4 [Tree 5 [Tree 6 []], Tree 7 [Tree 8 []]]
                         else Tree 5 [Tree 6 []]"
      and p' = "Nodes [4]" and xs' = "[4]"
      and tup = "\<lambda>x. Tree 3 [Tree 4 [Tree 5 [Tree 6 []], Tree 7 [Tree 8 []]]]"]
    parentsBack_docHeap
  by (simp add: run_simps spy_def offers_def)

section \<open>C4: a failed node set passes through\<close>

text \<open>
  C4, as stated, for \<^verbatim>\<open>One\<close> and \<^verbatim>\<open>Cache\<close>, which are chained like the other
  operators (\<^verbatim>\<open>ID\<close> is \<^verbatim>\<open>Attribute("id", v).One()\<close>): both assert the type of the
  enumerator before they test the failure, and on a failed node set that still holds
  an enumerator they return a node set with the same failure but without the
  enumerator, which is not the node set they were given.
\<close>

theorem failed_One_counterexample:
  "NodeSet_One 0 \<lparr>NodeSet_Data = fixNodes [4], NodeSet_Err = Some ErrInvalidNode\<rparr> docHeap
     = Some (Inr (\<lparr>NodeSet_Data = nilEnum, NodeSet_Err = Some ErrInvalidNode\<rparr>, docHeap))
   \<and> NodeSet_Cache 0 \<lparr>NodeSet_Data = matchedNodes (fixNodes [4]) isElement,
                        NodeSet_Err = Some ErrInvalidNode\<rparr> docHeap
     = Some (Inr (\<lparr>NodeSet_Data = nilEnum, NodeSet_Err = Some ErrInvalidNode\<rparr>, docHeap))
   \<and> \<lparr>NodeSet_Data = nilEnum, NodeSet_Err = Some ErrInvalidNode\<rparr>
     \<noteq> \<lparr>NodeSet_Data = fixNodes [4], NodeSet_Err = Some ErrInvalidNode\<rparr>"
  by (simp add: NodeSet_One_def NodeSet_Cache_def NodeSet_CollectOne_def NodeSet_Collect_def)

text \<open>
  C4, amended. On a node set whose failure is set, every operator that builds an
  enumerator (\<^verbatim>\<open>ChildN\<close>, \<^verbatim>\<open>Child\<close>, \<^verbatim>\<open>Parent\<close>, \<^verbatim>\<open>ParentN\<close>, \<^verbatim>\<open>Any\<close>,
  \<^verbatim>\<open>NextSibling\<close>, \<^verbatim>\<open>PrevSibling\<close>, \<^verbatim>\<open>PrevSiblings\<close>, \<^verbatim>\<open>NextSiblings\<close>,
  \<^verbatim>\<open>FirstChild\<close>, \<^verbatim>\<open>LastChild\<close>, \<^verbatim>\<open>Match\<close>, \<^verbatim>\<open>ChildrenAsText\<close>) returns the
  very node set it was given, whatever its enumerator is; \<^verbatim>\<open>CollectOne\<close> (in every
  call form) and \<^verbatim>\<open>Collect\<close> return the failure unchanged and leave the store as it
  was, with any fuel, so nothing is driven; \<^verbatim>\<open>One\<close> and \<^verbatim>\<open>Cache\<close> look at the type
  of the enumerator and return, without driving it and with the store as it was,
  either the node set itself (when the enumerator is a \<^verbatim>\<open>oneNode\<close>, respectively of
  a type with \<^verbatim>\<open>Cached\<close>) or a node set with the same failure and no enumerator; that
  is the node set itself when it had no enumerator.
\<close>

theorem failed_NodeSet_pass_through:
  "NodeSet_Err p = Some e \<Longrightarrow>
    NodeSet_ChildN p level = p \<and> NodeSet_Child p = p \<and> NodeSet_Parent p = p \<and>
    NodeSet_ParentN p level = p \<and> NodeSet_Any p = p \<and>
    NodeSet_NextSibling p delta = p \<and> NodeSet_PrevSibling p delta = p \<and>
    NodeSet_PrevSiblings p = p \<and> NodeSet_NextSiblings p = p \<and>
    NodeSet_FirstChild p nodeType = p \<and> NodeSet_LastChild p nodeType = p \<and>
    NodeSet_Match p pred = p \<and> NodeSet_ChildrenAsText p doReplace = p \<and>
    NodeSet_CollectOne n p exactly h = Some (Inr ((None, Some e), h)) \<and>
    NodeSet_Collect n p h = Some (Inr (([], Some e), h)) \<and>
    NodeSet_One n p h =
      Some (Inr (case NodeSet_Data p of oneNode x \<Rightarrow> p
                 | _ \<Rightarrow> \<lparr>NodeSet_Data = nilEnum, NodeSet_Err = Some e\<rparr>, h)) \<and>
    NodeSet_Cache n p h =
      Some (Inr (if Cached (NodeSet_Data p) \<noteq> None then p
                 else \<lparr>NodeSet_Data = nilEnum, NodeSet_Err = Some e\<rparr>, h)) \<and>
    (NodeSet_Data p = nilEnum \<longrightarrow>
       NodeSet_One n p h = Some (Inr (p, h)) \<and> NodeSet_Cache n p h = Some (Inr (p, h)))"
  by (cases p)
    (simp add: NodeSet_ChildN_def NodeSet_Child_def NodeSet_Parent_def NodeSet_ParentN_def
      NodeSet_Any_def NodeSet_NextSibling_def NodeSet_PrevSibling_def NodeSet_PrevSiblings_def
      NodeSet_NextSiblings_def NodeSet_FirstChild_def NodeSet_LastChild_def NodeSet_Match_def
      NodeSet_ChildrenAsText_def NodeSet_CollectOne_def NodeSet_Collect_def NodeSet_One_def
      NodeSet_Cache_def split: NodeEnum.splits)

theorem failed_NodeSet_pass_through_witness:
  "NodeSet_Err \<lparr>NodeSet_Data = nilEnum, NodeSet_Err = Some (ErrOther ''parse'')\<rparr>
     = Some (ErrOther ''parse'')
   \<and> NodeSet_Match (NodeSet_Any \<lparr>NodeSet_Data = nilEnum, NodeSet_Err = Some (ErrOther ''parse'')\<rparr>) isElement
     = \<lparr>NodeSet_Data = nilEnum, NodeSet_Err = Some (ErrOther ''parse'')\<rparr>
   \<and> NodeSet_CollectOne 0 \<lparr>NodeSet_Data = nilEnum, NodeSet_Err = Some (ErrOther ''parse'')\<rparr> None docHeap
     = Some (Inr ((None, Some (ErrOther ''parse'')), docHeap))
   \<and> NodeSet_Collect 0 \<lparr>NodeSet_Data = nilEnum, NodeSet_Err = Some (ErrOther ''parse'')\<rparr> docHeap
     = Some (Inr (([], Some (ErrOther ''parse'')), docHeap))
   \<and> NodeSet_One 0 \<lparr>NodeSet_Data = nilEnum, NodeSet_Err = Some (ErrOther ''parse'')\<rparr> docHeap
     = Some (Inr (\<lparr>NodeSet_Data = nilEnum, NodeSet_Err = Some (ErrOther ''parse'')\<rparr>, docHeap))
   \<and> NodeSet_Cache 0 \<lparr>NodeSet_Data = nilEnum, NodeSet_Err = Some (ErrOther ''parse'')\<rparr> docHeap
     = Some (Inr (\<lparr>NodeSet_Data = nilEnum, NodeSet_Err = Some (ErrOther ''parse'')\<rparr>, docHeap))"
  using failed_NodeSet_pass_through
    [of "\<lparr>NodeSet_Data = nilEnum, NodeSet_Err = Some (ErrOther ''parse'')\<rparr>"
        "ErrOther ''parse''" 1 1 ElementNode isElement True 0 None docHeap]
  by simp

section \<open>C5 and C6: Break through the deep search\<close>

text \<open>
  What \<^verbatim>\<open>CollectOne(true)\<close> returns follows from the number of calls of its visitor,
  on every enumerator: \<^verbatim>\<open>ErrNotFound\<close> after no call, the node after one call and
  \<^verbatim>\<open>ErrTooManyNodes\<close> (with the first node) after two or more.
\<close>

lemma sim_exactly_inv:
  "sim (\<lambda>u1 u2. u2 = u1 \<and>
          (case u1 of (seen, item, err) \<Rightarrow>
             (seen = [] \<longrightarrow> item = None \<and> err = Some ErrNotFound) \<and>
             (seen \<noteq> [] \<longrightarrow> item = Some (hd seen)) \<and>
             (length seen = 1 \<longrightarrow> err = None) \<and>
             (2 \<le> length seen \<longrightarrow> err = Some ErrTooManyNodes)))
       (\<lambda>u1. False) (logged exactlyVisit x) (logged exactlyVisit x)"
proof (rule simI)
  fix h u1 u2 r h' u1'
  assume run: "logged exactlyVisit x (h, u1) = Some (r, (h', u1'))"
  obtain seen item err where u1: "u1 = (seen, item, err)" by (cases u1)
  { assume "False" then show "False" . }
  { assume q: "u2 = u1 \<and>
          (case u1 of (seen, item, err) \<Rightarrow>
             (seen = [] \<longrightarrow> item = None \<and> err = Some ErrNotFound) \<and>
             (seen \<noteq> [] \<longrightarrow> item = Some (hd seen)) \<and>
             (length seen = 1 \<longrightarrow> err = None) \<and>
             (2 \<le> length seen \<longrightarrow> err = Some ErrTooManyNodes))"
    show "\<exists>u2'. logged exactlyVisit x (h, u2) = Some (r, (h', u2')) \<and> (u2' = u1' \<and>
          (case u1' of (seen, item, err) \<Rightarrow>
             (seen = [] \<longrightarrow> item = None \<and> err = Some ErrNotFound) \<and>
             (seen \<noteq> [] \<longrightarrow> item = Some (hd seen)) \<and>
             (length seen = 1 \<longrightarrow> err = None) \<and>
             (2 \<le> length seen \<longrightarrow> err = Some ErrTooManyNodes)))"
    proof (cases seen)
      case Nil
      with run q u1 show ?thesis by (auto simp: logged_def exactlyVisit_def)
    next
      case (Cons y ys)
      with run q u1 show ?thesis
        by (cases ys) (auto simp: logged_def exactlyVisit_def split: if_splits)
    qed }
qed

lemma exactly_result_by_visits:
  assumes "ForEach n d (logged exactlyVisit) (h, [], None, Some ErrNotFound)
      = Some (Inr (h', seen, item, err))"
  shows "(seen = [] \<longrightarrow> item = None \<and> err = Some ErrNotFound) \<and>
         (seen \<noteq> [] \<longrightarrow> item = Some (hd seen)) \<and>
         (length seen = 1 \<longrightarrow> err = None) \<and>
         (2 \<le> length seen \<longrightarrow> err = Some ErrTooManyNodes)"
  using sim_ForEach [OF sim_exactly_inv assms] by auto

lemma sim_logged_add:
  "sim (\<lambda>u1 u2. u1 = snd u2) (\<lambda>u1. False) (visit x) (logged visit x)"
  by (rule simI) (auto simp: logged_def split: option.splits)

lemma CollectOne_exactly_logged:
  assumes "NodeSet_Err p = None"
  shows "NodeSet_CollectOne n p (Some (True # bs)) h = Some (Inr ((item, err), h')) \<longleftrightarrow>
     (\<exists>seen. ForEach n (NodeSet_Data p) (logged exactlyVisit) (h, [], None, Some ErrNotFound)
        = Some (Inr (h', seen, item, err)))"
proof
  assume "NodeSet_CollectOne n p (Some (True # bs)) h = Some (Inr ((item, err), h'))"
  with assms have "ForEach n (NodeSet_Data p) exactlyVisit (h, None, Some ErrNotFound)
      = Some (Inr (h', item, err))"
    by (auto simp: NodeSet_CollectOne_def split: option.splits sum.splits)
  from sim_ForEach [OF sim_logged_add [where visit = exactlyVisit] this]
  show "\<exists>seen. ForEach n (NodeSet_Data p) (logged exactlyVisit) (h, [], None, Some ErrNotFound)
        = Some (Inr (h', seen, item, err))"
    by auto
next
  assume "\<exists>seen. ForEach n (NodeSet_Data p) (logged exactlyVisit) (h, [], None, Some ErrNotFound)
        = Some (Inr (h', seen, item, err))"
  then obtain seen where "ForEach n (NodeSet_Data p) (logged exactlyVisit) (h, [], None, Some ErrNotFound)
        = Some (Inr (h', seen, item, err))" ..
  from sim_ForEach [OF sim_logged_erase this]
  have "ForEach n (NodeSet_Data p) exactlyVisit (h, None, Some ErrNotFound) = Some (Inr (h', item, err))"
    by simp
  with assms show "NodeSet_CollectOne n p (Some (True # bs)) h = Some (Inr ((item, err), h'))"
    by (simp add: NodeSet_CollectOne_def)
qed

text \<open>
  Without a deep search in the chain the visitor of \<^verbatim>\<open>CollectOne(true)\<close> is called
  at most twice.
\<close>

lemma propagates_exactly:
  "propagates (\<lambda>u. snd (snd u) = Some ErrTooManyNodes)
     (\<lambda>u. \<not> (case u of (seen, item, err) \<Rightarrow>
              err = Some ErrNotFound \<and> seen = [] \<or> err = None \<and> length seen = 1
              \<or> err = Some ErrTooManyNodes \<and> length seen = 2))
     (logged exactlyVisit x)"
  by (rule propagatesI) (auto simp: logged_def exactlyVisit_def split: if_splits)

lemma exactly_at_most_two:
  assumes "anyFree d"
    and "ForEach n d (logged exactlyVisit) (h, [], None, Some ErrNotFound)
      = Some (Inr (h', seen, item, err))"
  shows "length seen \<le> 2"
  using propagates_ForEach [OF propagates_exactly assms] by auto

text \<open>
  C5. In exactly-one mode \<^verbatim>\<open>CollectOne\<close> is to break after the second node, so that at
  most two nodes are visited. Its visitor does answer \<^verbatim>\<open>ErrBreak\<close> on the second
  node, but \<^verbatim>\<open>anyNodes.ForEach\<close> does not pass the answer upstream: over the three
  input nodes 4, 5, 7 the visitor is called on all three. The result is still
  \<^verbatim>\<open>ErrTooManyNodes\<close>.
\<close>

theorem CollectOne_exactly_visits_three:
  "ForEach 10 (anyNodes (fixNodes [4, 5, 7])) (logged exactlyVisit)
       (docHeap, [], None, Some ErrNotFound)
     = Some (Inr (docHeap, [4, 5, 7], Some 4, Some ErrTooManyNodes))
   \<and> NodeSet_CollectOne 10 (NodeSet_Any (Nodes [4, 5, 7])) (Some [True]) docHeap
     = Some (Inr ((Some 4, Some ErrTooManyNodes), docHeap))"
  by (simp add: run_simps)

text \<open>
  Without a deep search in the chain no visitor is called again after it has answered
  \<^verbatim>\<open>ErrBreak\<close>.
\<close>

lemma propagates_guarded:
  "propagates (\<lambda>u. fst u) (\<lambda>u. fst (snd u)) (guarded visit x)"
  by (rule propagatesI) (auto simp: guarded_def split: option.splits)

lemma Break_ends_the_drive:
  assumes "anyFree d"
    and "ForEach n d (guarded visit) (h, False, False, u) = Some (Inr (h', broke, late, u'))"
  shows "\<not> late"
  using propagates_ForEach [OF propagates_guarded assms] by simp

text \<open>
  C6. Once the visitor has answered \<^verbatim>\<open>ErrBreak\<close> it is not to be called again in the
  same drive. The visitor of \<^verbatim>\<open>CollectOne()\<close> answers \<^verbatim>\<open>ErrBreak\<close> on every node.
  Driven by \<^verbatim>\<open>fixNodes\<close> over 4, 5, 7 it is called on 4 only; driven by
  \<^verbatim>\<open>anyNodes\<close> over the same list it is called on 4, on 5 and on 7, because the
  closure of \<^verbatim>\<open>anyNodes.ForEach\<close> drops the \<^verbatim>\<open>ErrBreak\<close> that \<^verbatim>\<open>anyForEach\<close>
  returns and answers nil. So \<^verbatim>\<open>CollectOne()\<close> returns the last node, 7, not the first.
\<close>

theorem anyNodes_swallows_Break:
  "ForEach 10 (anyNodes (fixNodes [4, 5, 7])) (logged firstVisit)
       (docHeap, [], None, Some ErrNotFound)
     = Some (Inr (docHeap, [4, 5, 7], Some 7, None))
   \<and> ForEach 10 (fixNodes [4, 5, 7]) (logged firstVisit) (docHeap, [], None, Some ErrNotFound)
     = Some (Inr (docHeap, [4], Some 4, None))
   \<and> NodeSet_CollectOne 10 (NodeSet_Any (Nodes [4, 5, 7])) None docHeap
     = Some (Inr ((Some 7, None), docHeap))"
  by (simp add: run_simps)

section \<open>C7: Cache\<close>

text \<open>
  C7, as stated, for the deep search: \<^verbatim>\<open>anyNodes\<close> has a method \<^verbatim>\<open>Cached\<close> (it
  answers the sentinel -1), so the type assertion of \<^verbatim>\<open>Cache\<close> succeeds and
  \<^verbatim>\<open>Cache\<close> returns the lazy node set as it is; nothing is collected or rewrapped.
\<close>

theorem Cache_any_counterexample:
  "NodeSet_Cache 10 (NodeSet_Any (Nodes [4])) docHeap
     = Some (Inr (\<lparr>NodeSet_Data = anyNodes (fixNodes [4]), NodeSet_Err = None\<rparr>, docHeap))
   \<and> NodeSet_CachedLen (NodeSet_Any (Nodes [4])) = - 1"
  by (simp add: run_simps)

text \<open>
  C7, amended. For every node set that has not failed, \<^verbatim>\<open>Cache\<close> returns the node
  set itself, without driving it, exactly when the type of its enumerator has a method
  \<^verbatim>\<open>Cached\<close>, that is for \<^verbatim>\<open>oneNode\<close>, \<^verbatim>\<open>fixNodes\<close> and also \<^verbatim>\<open>anyNodes\<close> with
  its sentinel; for every other enumerator \<^verbatim>\<open>Cache\<close> does what \<^verbatim>\<open>Collect\<close> does
  (it returns, panics or runs forever with it) and rewraps the collected nodes as a
  fixed list, which is another node set than the one given and reports its length.
\<close>

theorem Cache_by_type:
  "NodeSet_Err p = None \<Longrightarrow>
   (Cached (NodeSet_Data p) \<noteq> None) =
      (case NodeSet_Data p of oneNode x \<Rightarrow> True | fixNodes nodes \<Rightarrow> True | anyNodes d \<Rightarrow> True
       | _ \<Rightarrow> False) \<and>
   (Cached (NodeSet_Data p) \<noteq> None \<longrightarrow> NodeSet_Cache n p h = Some (Inr (p, h))) \<and>
   (Cached (NodeSet_Data p) = None \<longrightarrow>
      NodeSet_Cache n p h =
        map_option (map_sum id (\<lambda>((items, err), h'). (Nodes items, h'))) (NodeSet_Collect n p h)
      \<and> (\<forall>items h'. NodeSet_Cache n p h = Some (Inr (Nodes items, h')) \<longrightarrow>
            Nodes items \<noteq> p \<and> NodeSet_CachedLen (Nodes items) = int (length items)))"
  apply (intro conjI impI allI)
      apply (cases "NodeSet_Data p"; simp)
     apply (simp add: NodeSet_Cache_def)
    apply (simp add: NodeSet_Cache_def NodeSet_Collect_def Nodes_def split: option.splits sum.splits)
   apply (auto simp: Nodes_def NodeSet_CachedLen_def)
  done

theorem Cache_by_type_witness:
  "NodeSet_Err (NodeSet_Child (Nodes [4])) = None
   \<and> Cached (NodeSet_Data (NodeSet_Child (Nodes [4]))) = None
   \<and> NodeSet_Cache 10 (NodeSet_Child (Nodes [4])) docHeap = Some (Inr (Nodes [5, 7], docHeap))
   \<and> Nodes [5, 7] \<noteq> NodeSet_Child (Nodes [4])
   \<and> NodeSet_CachedLen (Nodes [5, 7]) = 2"
  using Cache_by_type [of "NodeSet_Child (Nodes [4])" 10 docHeap]
  by (simp add: run_simps)

section \<open>C8: ChildrenAsText(true) twice\<close>








section \<open>C9: CollectOne(false)\<close>

text \<open>
  C9, as stated, for a failed node set: \<^verbatim>\<open>CollectOne\<close> tests the failure before it
  looks at its argument, so \<^verbatim>\<open>CollectOne(false)\<close> returns the failure and does not
  panic.
\<close>

theorem CollectOne_false_failed_counterexample:
  "NodeSet_CollectOne 10 \<lparr>NodeSet_Data = nilEnum, NodeSet_Err = Some ErrInvalidNode\<rparr>
       (Some [False]) docHeap
     = Some (Inr ((None, Some ErrInvalidNode), docHeap))"
  by (simp add: NodeSet_CollectOne_def)

text \<open>
  C9, amended. For every node set that has not failed, \<^verbatim>\<open>CollectOne(false)\<close> does not
  return a node or a failure: it panics, with the message of the source, whatever the
  enumerator, the store and the fuel are. On a failed node set it returns the failure.
  So a call of \<^verbatim>\<open>CollectOne\<close> on a node set that has not failed can return only in the
  two forms \<^verbatim>\<open>CollectOne()\<close> and \<^verbatim>\<open>CollectOne(true)\<close>.
\<close>

theorem CollectOne_false_panics:
  "NodeSet_CollectOne n p (Some (False # bs)) h =
     (case NodeSet_Err p of
        None \<Rightarrow> Some (Inl (PanicMsg ''please call `CollectOne()` instead of `CollectOne(false)`''))
      | Some e \<Rightarrow> Some (Inr ((None, Some e), h)))
   \<and> (NodeSet_Err p = None \<longrightarrow> NodeSet_CollectOne n p exactly h = Some (Inr r) \<longrightarrow>
        exactly = None \<or> (\<exists>cs. exactly = Some (True # cs)))"
  by (auto simp: NodeSet_CollectOne_def split: option.splits sum.splits list.splits if_splits)

theorem CollectOne_false_panics_witness:
  "NodeSet_CollectOne 10 (NodeSet_Child (Nodes [4])) (Some [False]) docHeap
     = Some (Inl (PanicMsg ''please call `CollectOne()` instead of `CollectOne(false)`''))
   \<and> NodeSet_Err (NodeSet_Child (Nodes [4])) = None
   \<and> NodeSet_CollectOne 10 (NodeSet_Child (Nodes [4])) (Some [True]) docHeap
        = Some (Inr ((Some 5, Some ErrTooManyNodes), docHeap))
   \<and> (Some [True] = None \<or> (\<exists>cs. Some [True] = Some (True # cs)))"
  using CollectOne_false_panics [of 10 "NodeSet_Child (Nodes [4])" "[]" docHeap "Some [True]"
      "((Some 5, Some ErrTooManyNodes), docHeap)"]
  by (simp add: run_simps)

section \<open>C10: collecting nothing\<close>

lemma sim_logged_collect:
  "sim (\<lambda>u1 u2. fst u1 = [] \<and> u2 = []) (\<lambda>u1. fst u1 \<noteq> []) (logged visit x) (collectVisit x)"
  by (rule simI) (auto simp: logged_def split: option.splits)

lemma sim_collect_first:
  "sim (\<lambda>u1 u2. u1 = [] \<and> u2 = (None, Some ErrNotFound)) (\<lambda>u1. u1 \<noteq> [])
     (collectVisit x) (firstVisit x)"
  by (rule simI) (auto simp: collectVisit_def)

lemma sim_collect_exactly:
  "sim (\<lambda>u1 u2. u1 = [] \<and> u2 = (None, Some ErrNotFound)) (\<lambda>u1. u1 \<noteq> [])
     (collectVisit x) (exactlyVisit x)"
  by (rule simI) (auto simp: collectVisit_def)

lemma Collect_no_error:
  "NodeSet_Err p = None \<Longrightarrow> NodeSet_Collect n p h = Some (Inr ((items, err), h')) \<Longrightarrow> err = None"
  by (auto simp: NodeSet_Collect_def split: option.splits sum.splits)

text \<open>
  C10. Take a node set that has not failed and whose enumeration emits no node: driving
  its enumerator with some visitor, whichever, returns without the visitor having been
  called on any node. Then \<^verbatim>\<open>Collect\<close>, with the same fuel, returns the empty sequence
  and no error, while \<^verbatim>\<open>CollectOne()\<close> and \<^verbatim>\<open>CollectOne(true)\<close> return the failure
  \<^verbatim>\<open>ErrNotFound\<close>; all three leave the same store. And whatever a node set that has not
  failed emits, \<^verbatim>\<open>Collect\<close> returns no error.
\<close>

theorem Collect_empty_succeeds:
  assumes ok: "NodeSet_Err p = None"
    and zero: "ForEach n (NodeSet_Data p) (logged visit) (h, [], u) = Some (Inr (h', [], u'))"
  shows "NodeSet_Collect n p h = Some (Inr (([], None), h'))
       \<and> NodeSet_CollectOne n p None h = Some (Inr ((None, Some ErrNotFound), h'))
       \<and> NodeSet_CollectOne n p (Some (True # bs)) h = Some (Inr ((None, Some ErrNotFound), h'))
       \<and> (\<forall>m k items err k'. NodeSet_Collect m p k = Some (Inr ((items, err), k')) \<longrightarrow> err = None)"
proof -
  from sim_ForEach [OF sim_logged_collect zero]
  have c: "ForEach n (NodeSet_Data p) collectVisit (h, []) = Some (Inr (h', []))"
    by auto
  from sim_ForEach [OF sim_collect_first c]
  have f: "ForEach n (NodeSet_Data p) firstVisit (h, None, Some ErrNotFound)
      = Some (Inr (h', None, Some ErrNotFound))"
    by auto
  from sim_ForEach [OF sim_collect_exactly c]
  have e: "ForEach n (NodeSet_Data p) exactlyVisit (h, None, Some ErrNotFound)
      = Some (Inr (h', None, Some ErrNotFound))"
    by auto
  show ?thesis
    using ok c f e Collect_no_error [OF ok]
    by (auto simp: NodeSet_Collect_def NodeSet_CollectOne_def)
qed

theorem Collect_empty_succeeds_witness:
  "NodeSet_Err (NodeSet_Match (Nodes [4]) isText) = None
   \<and> ForEach 10 (NodeSet_Data (NodeSet_Match (Nodes [4]) isText)) (logged firstVisit)
        (docHeap, [], None, None) = Some (Inr (docHeap, [], None, None))
   \<and> NodeSet_Collect 10 (NodeSet_Match (Nodes [4]) isText) docHeap = Some (Inr (([], None), docHeap))
   \<and> NodeSet_CollectOne 10 (NodeSet_Match (Nodes [4]) isText) None docHeap
        = Some (Inr ((None, Some ErrNotFound), docHeap))"
  using Collect_empty_succeeds [of "NodeSet_Match (Nodes [4]) isText" 10 firstVisit docHeap
      "(None, None)" docHeap "(None, None)" "[]"]
  by (simp add: run_simps isText_def)

end
